theory Spec2Isabelle
  imports Complex_Main "HOL-Library.Stream"
begin

section \<open>Python values shared by both notebooks\<close>

text \<open>
  Both notebooks are plain Python over lists, a dictionary and NumPy arrays. Integers are
  Python's unbounded integers (\<open>int\<close>). The only exceptions the modelled cells can raise
  are an index out of range and a missing dictionary key.
\<close>

datatype exn = IndexError | KeyError

definition and_then :: "exn + 'a \<Rightarrow> ('a \<Rightarrow> exn + 'b) \<Rightarrow> exn + 'b" where
  "and_then m f = (case m of Inl e \<Rightarrow> Inl e | Inr x \<Rightarrow> f x)"

text \<open>\<open>xs[i]\<close> and \<open>xs[i] = v\<close> on a Python list, for an index that is never negative.\<close>

definition list_get :: "'a list \<Rightarrow> nat \<Rightarrow> exn + 'a" where
  "list_get xs i = (if i < length xs then Inr (xs ! i) else Inl IndexError)"

definition list_set :: "'a list \<Rightarrow> nat \<Rightarrow> 'a \<Rightarrow> exn + 'a list" where
  "list_set xs i v = (if i < length xs then Inr (xs[i := v]) else Inl IndexError)"

text \<open>\<open>xs.pop(i)\<close> returns the element and the list without it.\<close>

definition list_pop :: "'a list \<Rightarrow> nat \<Rightarrow> exn + ('a \<times> 'a list)" where
  "list_pop xs i =
     (if i < length xs then Inr (xs ! i, take i xs @ drop (Suc i) xs) else Inl IndexError)"

text \<open>
  An index into one axis of a NumPy array of extent \<open>n\<close>: a negative index counts from
  the end, anything outside \<open>-n .. n-1\<close> raises.
\<close>

definition np_index :: "nat \<Rightarrow> int \<Rightarrow> exn + nat" where
  "np_index n k =
     (if 0 \<le> k \<and> k < int n then Inr (nat k)
      else if - int n \<le> k \<and> k < 0 then Inr (nat (k + int n))
      else Inl IndexError)"

section \<open>NagelSchreckenbergModel.ipynb\<close>

text \<open>
  The notebook keeps two parallel lists, \<open>pos\<close> and \<open>vel\<close>, and draws from NumPy's
  global generator. The generator is modelled as the stream of the values that
  \<open>np.random.rand()\<close> returns, consumed from the front.
\<close>

record vehicles =
  pos :: "int list"
  vel :: "int list"
  rng :: "real stream"

subsection \<open>Initialisation (cell 3)\<close>

text \<open>
  \<open>gaps\<close> holds the values drawn by \<open>np.random.randint(1, 1 + L//N)\<close>;
  \<open>pos[0] = gaps[0]\<close>, then \<open>pos[i] = pos[i-1] + gaps[i]\<close> for \<open>i = 1 .. N-1\<close>.
\<close>

fun init_pos_loop :: "int list \<Rightarrow> nat list \<Rightarrow> int list \<Rightarrow> exn + int list" where
  "init_pos_loop gaps [] ps = Inr ps"
| "init_pos_loop gaps (i # is) ps =
     and_then (list_get ps (i - 1)) (\<lambda>prev.
     and_then (list_get gaps i) (\<lambda>g.
     and_then (list_set ps i (prev + g)) (\<lambda>ps'.
     init_pos_loop gaps is ps')))"

definition init_pos :: "nat \<Rightarrow> int list \<Rightarrow> exn + int list" where
  "init_pos N gaps =
     and_then (list_get gaps 0) (\<lambda>g0.
     and_then (list_set (replicate N 0) 0 g0) (\<lambda>ps.
     init_pos_loop gaps [1..<N] ps))"

subsection \<open>One pass over the vehicles (cells 5 and 9)\<close>

text \<open>acceleration: \<open>if vel[i] < vmax: vel[i] = vel[i] + 1\<close>\<close>

definition accelerate :: "int \<Rightarrow> nat \<Rightarrow> vehicles \<Rightarrow> exn + vehicles" where
  "accelerate vmax i s =
     and_then (list_get (vel s) i) (\<lambda>v.
       if v < vmax
       then and_then (list_set (vel s) i (v + 1)) (\<lambda>vs. Inr (s\<lparr>vel := vs\<rparr>))
       else Inr s)"

text \<open>
  slowing down, with the periodic boundary condition on velocities in the \<open>else\<close>
  branch of \<open>if i < N-1\<close>.
\<close>

definition slow_down :: "int \<Rightarrow> nat \<Rightarrow> nat \<Rightarrow> vehicles \<Rightarrow> exn + vehicles" where
  "slow_down L N i s =
     (if int i < int N - 1
      then
        and_then (list_get (vel s) i) (\<lambda>v.
        and_then (list_get (pos s) (i + 1)) (\<lambda>ahead.
        and_then (list_get (pos s) i) (\<lambda>x.
          if v \<ge> ahead - x
          then and_then (list_set (vel s) i (ahead - x - 1)) (\<lambda>vs. Inr (s\<lparr>vel := vs\<rparr>))
          else Inr s)))
      else
        and_then (list_get (vel s) i) (\<lambda>v.
        and_then (list_get (pos s) i) (\<lambda>x.
        and_then (list_get (pos s) 0) (\<lambda>x0.
          if v \<ge> (L - x - 1) + x0
          then and_then (list_set (vel s) i ((L - x - 1) + x0 - 1)) (\<lambda>vs. Inr (s\<lparr>vel := vs\<rparr>))
          else Inr s))))"

text \<open>
  random deceleration: \<open>np.random.rand()\<close> is called only when \<open>vel[i] >= 1\<close>, and
  then the generator advances whatever the comparison with \<open>p\<close> gives.
\<close>

definition random_decel :: "real \<Rightarrow> nat \<Rightarrow> vehicles \<Rightarrow> exn + vehicles" where
  "random_decel p i s =
     and_then (list_get (vel s) i) (\<lambda>v.
       if v \<ge> 1
       then (let r = shd (rng s); s' = s\<lparr>rng := stl (rng s)\<rparr>
             in if r < p
                then and_then (list_set (vel s') i (v - 1)) (\<lambda>vs. Inr (s'\<lparr>vel := vs\<rparr>))
                else Inr s')
       else Inr s)"

text \<open>move vehicles: \<open>pos[i] = pos[i] + vel[i]\<close>\<close>

definition move :: "nat \<Rightarrow> vehicles \<Rightarrow> exn + vehicles" where
  "move i s =
     and_then (list_get (pos s) i) (\<lambda>x.
     and_then (list_get (vel s) i) (\<lambda>v.
     and_then (list_set (pos s) i (x + v)) (\<lambda>ps. Inr (s\<lparr>pos := ps\<rparr>))))"

text \<open>
  periodic boundary condition on positions. The test sits inside the loop over the
  vehicles, so it runs after every vehicle, always on index \<open>N-1\<close>.
\<close>

definition wrap_last :: "int \<Rightarrow> nat \<Rightarrow> vehicles \<Rightarrow> exn + vehicles" where
  "wrap_last L N s =
     and_then (list_get (pos s) (N - 1)) (\<lambda>xl.
       if xl \<ge> L
       then
         and_then (list_pop (pos s) (N - 1)) (\<lambda>(newpos0, ps).
         and_then (list_pop (vel s) (N - 1)) (\<lambda>(newvel0, vs).
           Inr (s\<lparr>pos := (newpos0 - L) # ps, vel := newvel0 # vs\<rparr>)))
       else Inr s)"

definition ns_body :: "int \<Rightarrow> nat \<Rightarrow> int \<Rightarrow> real \<Rightarrow> nat \<Rightarrow> vehicles \<Rightarrow> exn + vehicles" where
  "ns_body L N vmax p i s =
     and_then (accelerate vmax i s) (\<lambda>s1.
     and_then (slow_down L N i s1) (\<lambda>s2.
     and_then (random_decel p i s2) (\<lambda>s3.
     and_then (move i s3) (\<lambda>s4.
     wrap_last L N s4))))"

fun ns_loop :: "int \<Rightarrow> nat \<Rightarrow> int \<Rightarrow> real \<Rightarrow> nat list \<Rightarrow> vehicles \<Rightarrow> exn + vehicles" where
  "ns_loop L N vmax p [] s = Inr s"
| "ns_loop L N vmax p (i # is) s =
     and_then (ns_body L N vmax p i s) (ns_loop L N vmax p is)"

text \<open>\<open>for i in range(N): ...\<close>\<close>

definition ns_update :: "int \<Rightarrow> nat \<Rightarrow> int \<Rightarrow> real \<Rightarrow> vehicles \<Rightarrow> exn + vehicles" where
  "ns_update L N vmax p s = ns_loop L N vmax p [0..<N] s"

subsection \<open>Drawing a row of the space-time diagram (cell 9)\<close>

text \<open>
  \<open>traffic[t, pos[i]]\<close> is set to 1, 2 or 3; the row starts as zeros of width \<open>L\<close>
  (\<open>np.zeros((T,L))\<close>), and the column index follows NumPy's rules.
\<close>

definition draw_code :: "int \<Rightarrow> int" where
  "draw_code v = (if v = 0 then 1 else if v = 1 then 2 else 3)"

fun draw_loop :: "vehicles \<Rightarrow> nat list \<Rightarrow> int list \<Rightarrow> exn + int list" where
  "draw_loop s [] row = Inr row"
| "draw_loop s (i # is) row =
     and_then (list_get (vel s) i) (\<lambda>v.
     and_then (list_get (pos s) i) (\<lambda>x.
     and_then (np_index (length row) x) (\<lambda>c.
     draw_loop s is (row[c := draw_code v]))))"

definition draw_row :: "int \<Rightarrow> nat \<Rightarrow> vehicles \<Rightarrow> exn + int list" where
  "draw_row L N s = draw_loop s [0..<N] (replicate (nat L) 0)"

text \<open>The write of the draw loop for vehicle \<open>i\<close> whose column is on the row.\<close>

definition paint :: "vehicles \<Rightarrow> nat \<Rightarrow> int list \<Rightarrow> int list" where
  "paint s i row = row[nat (pos s ! i) := draw_code (vel s ! i)]"

text \<open>
  The simulation proper: for each \<open>t\<close>, draw row \<open>t\<close>, then update the vehicles. The
  result is the list of rows drawn and the final vehicles.
\<close>

fun simulate :: "int \<Rightarrow> nat \<Rightarrow> int \<Rightarrow> real \<Rightarrow> nat \<Rightarrow> vehicles \<Rightarrow> exn + (int list list \<times> vehicles)" where
  "simulate L N vmax p 0 s = Inr ([], s)"
| "simulate L N vmax p (Suc T) s =
     and_then (draw_row L N s) (\<lambda>row.
     and_then (ns_update L N vmax p s) (\<lambda>s'.
     and_then (simulate L N vmax p T s') (\<lambda>(rows, s''). Inr (row # rows, s''))))"


subsection \<open>The update as the spec words it\<close>

text \<open>
  The spec describes one tick as four sub-rules applied to each vehicle in index order,
  followed by the wrap normalisation of the last vehicle. These definitions follow that
  wording; they read the lists without any range check and are compared with
  \<open>ns_update\<close> below. The position of vehicle 0 in the wrap gap is the one stored in
  the list when the last vehicle is processed.
\<close>

definition gap_ahead :: "int \<Rightarrow> nat \<Rightarrow> nat \<Rightarrow> int list \<Rightarrow> int" where
  "gap_ahead L N i ps =
     (if i + 1 < N then ps ! (i + 1) - ps ! i else (L - ps ! i - 1) + ps ! 0)"

definition rule_accel :: "int \<Rightarrow> int \<Rightarrow> int" where
  "rule_accel vmax v = (if v < vmax then v + 1 else v)"

definition rule_slow :: "int \<Rightarrow> int \<Rightarrow> int" where
  "rule_slow gap v = (if v \<ge> gap then gap - 1 else v)"

definition rule_random :: "real \<Rightarrow> real \<Rightarrow> int \<Rightarrow> int" where
  "rule_random p r v = (if v \<ge> 1 \<and> r < p then v - 1 else v)"

definition agent_rules :: "int \<Rightarrow> nat \<Rightarrow> int \<Rightarrow> real \<Rightarrow> nat \<Rightarrow> vehicles \<Rightarrow> vehicles" where
  "agent_rules L N vmax p i s =
     (let v2 = rule_slow (gap_ahead L N i (pos s)) (rule_accel vmax (vel s ! i));
          v3 = rule_random p (shd (rng s)) v2
      in \<lparr>pos = (pos s)[i := pos s ! i + v3],
          vel = (vel s)[i := v3],
          rng = (if v2 \<ge> 1 then stl (rng s) else rng s)\<rparr>)"

definition wrap_norm :: "int \<Rightarrow> vehicles \<Rightarrow> vehicles" where
  "wrap_norm L s =
     (if last (pos s) \<ge> L
      then \<lparr>pos = (last (pos s) - L) # butlast (pos s),
            vel = last (vel s) # butlast (vel s),
            rng = rng s\<rparr>
      else s)"

definition spec_step :: "int \<Rightarrow> nat \<Rightarrow> int \<Rightarrow> real \<Rightarrow> vehicles \<Rightarrow> vehicles" where
  "spec_step L N vmax p s = wrap_norm L (fold (agent_rules L N vmax p) [0..<N] s)"

text \<open>
  The spec's data model: \<open>N\<close> vehicles with \<open>0 < N < L\<close>, positions strictly increasing
  inside \<open>0 .. L-1\<close>, velocities inside \<open>0 .. vmax\<close>.
\<close>

definition well_formed :: "int \<Rightarrow> nat \<Rightarrow> int \<Rightarrow> vehicles \<Rightarrow> bool" where
  "well_formed L N vmax s \<longleftrightarrow>
     0 < N \<and> int N < L \<and> 1 \<le> vmax \<and>
     length (pos s) = N \<and> length (vel s) = N \<and>
     sorted_wrt (<) (pos s) \<and>
     list_all (\<lambda>x. 0 \<le> x \<and> x < L) (pos s) \<and>
     list_all (\<lambda>v. 0 \<le> v \<and> v \<le> vmax) (vel s)"

text \<open>
  The states the notebook can reach: an outcome of the initialisation cell (every gap
  between 1 and \<open>L // N\<close>, every velocity between 0 and \<open>vmax\<close>), followed by any
  number of passes of the update loop.
\<close>

inductive reachable :: "int \<Rightarrow> nat \<Rightarrow> int \<Rightarrow> real \<Rightarrow> vehicles \<Rightarrow> bool"
  for L :: int and N :: nat and vmax :: int and p :: real where
  start: "length gaps = N \<Longrightarrow> list_all (\<lambda>g. 1 \<le> g \<and> g \<le> L div int N) gaps \<Longrightarrow>
          init_pos N gaps = Inr ps \<Longrightarrow>
          length vs = N \<Longrightarrow> list_all (\<lambda>v. 0 \<le> v \<and> v \<le> vmax) vs \<Longrightarrow>
          reachable L N vmax p \<lparr>pos = ps, vel = vs, rng = r\<rparr>"
| tick: "reachable L N vmax p s \<Longrightarrow> ns_update L N vmax p s = Inr s' \<Longrightarrow>
         reachable L N vmax p s'"

text \<open>
  The invariant of the update loop: the list is strictly ascending inside the track, and
  the last vehicle is not in the cell right behind vehicle 0 across the boundary (so the
  wrap gap \<open>(L - pos[N-1] - 1) + pos[0]\<close> is at least 1).
\<close>

definition ring_ok :: "int \<Rightarrow> nat \<Rightarrow> int list \<Rightarrow> bool" where
  "ring_ok L N ps \<longleftrightarrow>
     length ps = N \<and> 0 < N \<and>
     (\<forall>i. i + 1 < N \<longrightarrow> ps ! i < ps ! (i + 1)) \<and>
     0 \<le> ps ! 0 \<and> ps ! (N - 1) < L \<and> ps ! (N - 1) - ps ! 0 \<le> L - 2"

definition vel_ok :: "int \<Rightarrow> int \<Rightarrow> nat \<Rightarrow> int list \<Rightarrow> bool" where
  "vel_ok lo vmax N vs \<longleftrightarrow> length vs = N \<and> (\<forall>i<N. lo \<le> vs ! i \<and> vs ! i \<le> vmax)"

text \<open>
  The one outcome of the initialisation that leaves the track: every gap equal to
  \<open>L // N\<close> with \<open>N * (L // N) = L\<close> puts the last vehicle at position \<open>L\<close>.
\<close>

definition edge_start :: "int \<Rightarrow> nat \<Rightarrow> int list \<Rightarrow> bool" where
  "edge_start L N ps \<longleftrightarrow>
     length ps = N \<and> 0 < N \<and> (\<forall>i. i + 1 < N \<longrightarrow> ps ! i < ps ! (i + 1)) \<and>
     1 \<le> ps ! 0 \<and> ps ! (N - 1) = L \<and> (2 \<le> N \<longrightarrow> ps ! (N - 2) \<le> L - 2)"

text \<open>The draws of \<open>np.random.rand()\<close> lie in the half-open interval from 0 to 1.\<close>

definition unit_draws :: "real stream \<Rightarrow> bool" where
  "unit_draws r \<longleftrightarrow> (\<forall>x\<in>sset r. 0 \<le> x \<and> x < 1)"

text \<open>Two states with the same vehicles, whatever is left of their generators.\<close>

definition same_cars :: "vehicles \<Rightarrow> vehicles \<Rightarrow> bool" where
  "same_cars s t \<longleftrightarrow> pos s = pos t \<and> vel s = vel t \<and> unit_draws (rng s) \<and> unit_draws (rng t)"

section \<open>The Game of Life notebook\<close>

text \<open>
  The board is an \<open>N \<times> N\<close> NumPy array holding 0.0 for a dead and 1.0 for a live cell;
  the sums of at most eight such values are exact, so the cells are modelled as integers.
  The neighbour list \<open>nbrs\<close> is a dictionary from coordinate pairs to lists of pairs.
\<close>

type_synonym cell = "int \<times> int"
type_synonym board = "int list list"
type_synonym nbr_table = "cell \<rightharpoonup> cell list"

subsection \<open>The neighbour list (cell 7)\<close>

definition nbrs_corners :: "int \<Rightarrow> nbr_table" where
  "nbrs_corners N =
     (((Map.empty
        ((0, 0) \<mapsto> [(0, 1), (1, 1), (1, 0)]))
        ((0, N - 1) \<mapsto> [(1, N - 1), (1, N - 2), (0, N - 2)]))
        ((N - 1, N - 1) \<mapsto> [(N - 1, N - 2), (N - 2, N - 2), (N - 2, N - 1)]))
        ((N - 1, 0) \<mapsto> [(N - 2, 0), (N - 2, 1), (N - 1, 1)])"

text \<open>The four loops commented left, top, right and bottom edge in the notebook.\<close>

definition nbrs_left :: "int \<Rightarrow> nbr_table \<Rightarrow> nbr_table" where
  "nbrs_left N =
     fold (\<lambda>j d. d((0, j) \<mapsto> [(0, j + 1), (1, j + 1), (1, j), (1, j - 1), (0, j - 1)]))
       [1..N - 2]"

definition nbrs_top :: "int \<Rightarrow> nbr_table \<Rightarrow> nbr_table" where
  "nbrs_top N =
     fold (\<lambda>i d. d((i, N - 1) \<mapsto>
             [(i + 1, N - 1), (i + 1, N - 2), (i, N - 2), (i - 1, N - 2), (i - 1, N - 1)]))
       [1..N - 2]"

definition nbrs_right :: "int \<Rightarrow> nbr_table \<Rightarrow> nbr_table" where
  "nbrs_right N =
     fold (\<lambda>j d. d((N - 1, j) \<mapsto>
             [(N - 1, j - 1), (N - 2, j - 1), (N - 2, j), (N - 2, j + 1), (N - 1, j + 1)]))
       [1..N - 2]"

definition nbrs_bottom :: "int \<Rightarrow> nbr_table \<Rightarrow> nbr_table" where
  "nbrs_bottom N =
     fold (\<lambda>i d. d((i, 0) \<mapsto> [(i - 1, 0), (i - 1, 1), (i, 1), (i + 1, 1), (i + 1, 0)]))
       [1..N - 2]"

definition nbrs_interior :: "int \<Rightarrow> nbr_table \<Rightarrow> nbr_table" where
  "nbrs_interior N =
     fold (\<lambda>i. fold (\<lambda>j d. d((i, j) \<mapsto>
             [(i, j + 1), (i + 1, j + 1), (i + 1, j), (i + 1, j - 1),
              (i, j - 1), (i - 1, j - 1), (i - 1, j), (i - 1, j + 1)]))
           [1..N - 2])
       [1..N - 2]"

definition nbrs :: "int \<Rightarrow> nbr_table" where
  "nbrs N =
     nbrs_interior N (nbrs_bottom N (nbrs_right N (nbrs_top N (nbrs_left N (nbrs_corners N)))))"

subsection \<open>One turn (cells 8 and 11)\<close>

text \<open>\<open>board[k,l]\<close> and \<open>newboard[i,j] = v\<close>, each axis indexed by NumPy's rules.\<close>

definition board_get :: "board \<Rightarrow> int \<Rightarrow> int \<Rightarrow> exn + int" where
  "board_get b k l =
     and_then (np_index (length b) k) (\<lambda>r.
     and_then (np_index (length (b ! r)) l) (\<lambda>c.
     Inr (b ! r ! c)))"

definition board_set :: "board \<Rightarrow> int \<Rightarrow> int \<Rightarrow> int \<Rightarrow> exn + board" where
  "board_set b k l v =
     and_then (np_index (length b) k) (\<lambda>r.
     and_then (np_index (length (b ! r)) l) (\<lambda>c.
     Inr (b[r := (b ! r)[c := v]])))"

definition dict_get :: "('k \<rightharpoonup> 'v) \<Rightarrow> 'k \<Rightarrow> exn + 'v" where
  "dict_get d k = (case d k of None \<Rightarrow> Inl KeyError | Some v \<Rightarrow> Inr v)"

text \<open>\<open>for (k,l) in nbrs[(i,j)]: numnbr += board[k,l]\<close>\<close>

fun count_nbrs :: "board \<Rightarrow> cell list \<Rightarrow> int \<Rightarrow> exn + int" where
  "count_nbrs b [] numnbr = Inr numnbr"
| "count_nbrs b ((k, l) # rest) numnbr =
     and_then (board_get b k l) (\<lambda>c. count_nbrs b rest (numnbr + c))"

definition life_cell :: "nbr_table \<Rightarrow> board \<Rightarrow> nat \<Rightarrow> nat \<Rightarrow> exn + int" where
  "life_cell tbl b i j =
     and_then (dict_get tbl (int i, int j)) (\<lambda>ns.
     and_then (count_nbrs b ns 0) (\<lambda>numnbr.
     and_then (board_get b (int i) (int j)) (\<lambda>c.
       Inr (if c = 1
            then (if numnbr < 2 \<or> numnbr > 3 then 0 else 1)
            else (if numnbr = 3 then 1 else 0)))))"

fun life_row :: "nbr_table \<Rightarrow> board \<Rightarrow> nat \<Rightarrow> nat list \<Rightarrow> board \<Rightarrow> exn + board" where
  "life_row tbl b i [] newboard = Inr newboard"
| "life_row tbl b i (j # js) newboard =
     and_then (life_cell tbl b i j) (\<lambda>v.
     and_then (board_set newboard (int i) (int j) v) (\<lambda>newboard'.
     life_row tbl b i js newboard'))"

fun life_rows :: "nat \<Rightarrow> nbr_table \<Rightarrow> board \<Rightarrow> nat list \<Rightarrow> board \<Rightarrow> exn + board" where
  "life_rows N tbl b [] newboard = Inr newboard"
| "life_rows N tbl b (i # is) newboard =
     and_then (life_row tbl b i [0..<N] newboard) (life_rows N tbl b is)"

text \<open>\<open>newboard = np.zeros((N,N))\<close>, the two loops, \<open>board = np.array(newboard)\<close>.\<close>

definition life_step :: "nat \<Rightarrow> nbr_table \<Rightarrow> board \<Rightarrow> exn + board" where
  "life_step N tbl b = life_rows N tbl b [0..<N] (replicate N (replicate N 0))"

fun life_run :: "nat \<Rightarrow> nbr_table \<Rightarrow> nat \<Rightarrow> board \<Rightarrow> exn + board" where
  "life_run N tbl 0 b = Inr b"
| "life_run N tbl (Suc T) b = and_then (life_step N tbl b) (life_run N tbl T)"

subsection \<open>The turn as the spec words it\<close>

text \<open>
  A cell is alive when it holds 1. The next state of a cell is decided by its own state
  and the number of alive cells among the neighbours the table lists for it, all read
  from the current board.
\<close>

definition alive :: "board \<Rightarrow> cell \<Rightarrow> bool" where
  "alive b c = (b ! nat (fst c) ! nat (snd c) = 1)"

definition alive_count :: "board \<Rightarrow> cell list \<Rightarrow> nat" where
  "alive_count b ns = length (filter (alive b) ns)"

definition next_alive :: "bool \<Rightarrow> nat \<Rightarrow> bool" where
  "next_alive a n = (if a then \<not> (n < 2 \<or> n > 3) else n = 3)"

definition table_at :: "nbr_table \<Rightarrow> nat \<Rightarrow> nat \<Rightarrow> cell list" where
  "table_at tbl i j = (case tbl (int i, int j) of None \<Rightarrow> [] | Some ns \<Rightarrow> ns)"

definition next_cell :: "nbr_table \<Rightarrow> board \<Rightarrow> nat \<Rightarrow> nat \<Rightarrow> int" where
  "next_cell tbl b i j =
     (if next_alive (alive b (int i, int j)) (alive_count b (table_at tbl i j)) then 1 else 0)"

definition spec_life :: "nat \<Rightarrow> nbr_table \<Rightarrow> board \<Rightarrow> board" where
  "spec_life N tbl b = map (\<lambda>i. map (next_cell tbl b i) [0..<N]) [0..<N]"

definition in_grid :: "nat \<Rightarrow> cell \<Rightarrow> bool" where
  "in_grid N c \<longleftrightarrow> 0 \<le> fst c \<and> fst c < int N \<and> 0 \<le> snd c \<and> snd c < int N"

definition grid_ok :: "nat \<Rightarrow> board \<Rightarrow> bool" where
  "grid_ok N b \<longleftrightarrow>
     length b = N \<and> list_all (\<lambda>row. length row = N \<and> list_all (\<lambda>c. c = 0 \<or> c = 1) row) b"

definition table_ok :: "nat \<Rightarrow> nbr_table \<Rightarrow> bool" where
  "table_ok N tbl \<longleftrightarrow>
     list_all (\<lambda>i. list_all (\<lambda>j.
        case tbl (int i, int j) of None \<Rightarrow> False | Some ns \<Rightarrow> list_all (in_grid N) ns)
        [0..<N]) [0..<N]"

text \<open>The three classes of cells under the fixed boundary.\<close>

definition is_corner :: "int \<Rightarrow> cell \<Rightarrow> bool" where
  "is_corner N c \<longleftrightarrow> (fst c = 0 \<or> fst c = N - 1) \<and> (snd c = 0 \<or> snd c = N - 1)"

definition is_edge :: "int \<Rightarrow> cell \<Rightarrow> bool" where
  "is_edge N c \<longleftrightarrow>
     \<not> is_corner N c \<and> (fst c = 0 \<or> fst c = N - 1 \<or> snd c = 0 \<or> snd c = N - 1)"

section \<open>The traffic update and the four sub-rules\<close>

lemma and_then_Inr [simp]: "and_then (Inr x) f = f x"
  by (simp add: and_then_def)
lemma and_then_Inl [simp]: "and_then (Inl e) f = Inl e"
  by (simp add: and_then_def)

lemma list_get_ok [simp]: "i < length xs \<Longrightarrow> list_get xs i = Inr (xs ! i)"
  by (simp add: list_get_def)
lemma list_set_ok [simp]: "i < length xs \<Longrightarrow> list_set xs i v = Inr (xs[i := v])"
  by (simp add: list_set_def)
lemma list_pop_last: "xs \<noteq> [] \<Longrightarrow> list_pop xs (length xs - 1) = Inr (last xs, butlast xs)"
  by (simp add: list_pop_def last_conv_nth butlast_conv_take)

lemma rules_length [simp]:
  "length (pos (agent_rules L N vmax p i s)) = length (pos s)"
  "length (vel (agent_rules L N vmax p i s)) = length (vel s)"
  by (simp_all add: agent_rules_def Let_def)

lemma four_rules:
  assumes "length (pos s) = N" "length (vel s) = N" "i < N"
  shows "and_then (accelerate vmax i s) (\<lambda>s1.
     and_then (slow_down L N i s1) (\<lambda>s2.
     and_then (random_decel p i s2) (\<lambda>s3. move i s3))) = Inr (agent_rules L N vmax p i s)"
  using assms
  by (auto simp add: accelerate_def slow_down_def random_decel_def move_def agent_rules_def
      gap_ahead_def rule_accel_def rule_slow_def rule_random_def Let_def)


lemma and_then_assoc: "and_then (and_then m f) g = and_then m (\<lambda>x. and_then (f x) g)"
  by (cases m) simp_all

lemma ns_body_split:
  "ns_body L N vmax p i s =
     and_then (and_then (accelerate vmax i s) (\<lambda>s1.
       and_then (slow_down L N i s1) (\<lambda>s2.
       and_then (random_decel p i s2) (\<lambda>s3. move i s3)))) (wrap_last L N)"
  by (simp add: ns_body_def and_then_assoc)

lemma wrap_last_eq:
  assumes "length (pos s) = N" "length (vel s) = N" "0 < N"
  shows "wrap_last L N s = Inr (wrap_norm L s)"
proof -
  from assms have ne: "pos s \<noteq> []" "vel s \<noteq> []" by auto
  from assms have g: "list_get (pos s) (N - 1) = Inr (last (pos s))"
    by (simp add: last_conv_nth ne)
  from list_pop_last[OF ne(1)] list_pop_last[OF ne(2)] assms
  have pp: "list_pop (pos s) (N - 1) = Inr (last (pos s), butlast (pos s))"
           "list_pop (vel s) (N - 1) = Inr (last (vel s), butlast (vel s))" by simp_all
  show ?thesis
    unfolding wrap_last_def g pp by (simp add: wrap_norm_def)
qed

lemma ns_body_eq:
  assumes "length (pos s) = N" "length (vel s) = N" "i < N"
  shows "ns_body L N vmax p i s = Inr (wrap_norm L (agent_rules L N vmax p i s))"
  using assms by (simp add: ns_body_split four_rules wrap_last_eq)

lemma rules_last:
  assumes "length (pos s) = N" "i + 1 < N"
  shows "last (pos (agent_rules L N vmax p i s)) = last (pos s)"
proof -
  from assms have "pos s \<noteq> []" and "i \<noteq> length (pos s) - 1" by auto
  then show ?thesis
    by (simp add: agent_rules_def Let_def last_list_update)
qed

lemma wrap_norm_id: "last (pos s) < L \<Longrightarrow> wrap_norm L s = s"
  by (simp add: wrap_norm_def)

lemma ns_loop_inner:
  assumes "length (pos s) = N" "length (vel s) = N" "last (pos s) < L"
    and "\<forall>i\<in>set js. i + 1 < N"
  shows "ns_loop L N vmax p js s = Inr (fold (agent_rules L N vmax p) js s)"
  using assms
proof (induction js arbitrary: s)
  case Nil
  then show ?case by simp
next
  case (Cons j js)
  let ?t = "agent_rules L N vmax p j s"
  from Cons.prems have j: "j + 1 < N" by simp
  with Cons.prems have l: "last (pos ?t) = last (pos s)" by (simp add: rules_last)
  with Cons.prems have b: "ns_body L N vmax p j s = Inr ?t"
    using j by (simp add: ns_body_eq wrap_norm_id)
  have "ns_loop L N vmax p js ?t = Inr (fold (agent_rules L N vmax p) js ?t)"
    using Cons.prems l by (intro Cons.IH) simp_all
  with b show ?case by simp
qed

lemma ns_loop_single: "ns_loop L N vmax p [i] s = ns_body L N vmax p i s"
  by (cases "ns_body L N vmax p i s") simp_all

lemma ns_loop_append:
  "ns_loop L N vmax p (xs @ ys) s = and_then (ns_loop L N vmax p xs s) (ns_loop L N vmax p ys)"
  by (induction xs arbitrary: s) (auto simp: and_then_def split: sum.splits)

lemma fold_rules_length [simp]:
  "length (pos (fold (agent_rules L N vmax p) js s)) = length (pos s)"
  "length (vel (fold (agent_rules L N vmax p) js s)) = length (vel s)"
  by (induction js arbitrary: s) simp_all

lemma ns_update_eq_spec:
  assumes "length (pos s) = N" "length (vel s) = N" "0 < N" "last (pos s) < L"
  shows "ns_update L N vmax p s = Inr (spec_step L N vmax p s)"
proof -
  from assms obtain M where N: "N = Suc M" by (cases N) auto
  let ?r = "fold (agent_rules L N vmax p) [0..<M] s"
  have inner: "ns_loop L N vmax p [0..<M] s = Inr ?r"
    using assms N by (intro ns_loop_inner) auto
  have "ns_loop L N vmax p [0..<N] s = and_then (ns_loop L N vmax p [0..<M] s) (ns_loop L N vmax p [M])"
    unfolding N by (simp add: ns_loop_append)
  also have "\<dots> = ns_body L N vmax p M ?r" by (simp only: inner and_then_Inr ns_loop_single)
  also have "\<dots> = Inr (wrap_norm L (agent_rules L N vmax p M ?r))"
    using assms N by (simp add: ns_body_eq)
  also have "agent_rules L N vmax p M ?r = fold (agent_rules L N vmax p) [0..<N] s"
    unfolding N by simp
  finally show ?thesis by (simp add: ns_update_def spec_step_def)
qed

lemma well_formed_last:
  assumes "well_formed L N vmax s"
  shows "last (pos s) < L"
proof -
  from assms have "pos s \<noteq> []" and "list_all (\<lambda>x. 0 \<le> x \<and> x < L) (pos s)"
    by (auto simp: well_formed_def)
  then show ?thesis
    using last_in_set[of "pos s"] by (auto simp: list_all_iff)
qed

text \<open>
  C1. On every well-formed traffic state the update loop of the notebook raises nothing
  and returns what the spec describes: the four sub-rules (acceleration, slowing down
  against the gap to the vehicle ahead, with the wrap gap \<open>(L - position - 1) +
  position of vehicle 0\<close> for the last vehicle, random deceleration drawing only when
  the velocity is at least 1, motion without any reduction modulo \<open>L\<close>) applied to
  vehicle \<open>0, 1, ..., N-1\<close> in this order, then the wrap normalisation.
\<close>

theorem ns_update_applies_rules_in_order:
  assumes "well_formed L N vmax s"
  shows "ns_update L N vmax p s = Inr (spec_step L N vmax p s)"
proof -
  from assms have "length (pos s) = N" "length (vel s) = N" "0 < N"
    by (simp_all add: well_formed_def)
  then show ?thesis
    using well_formed_last[OF assms] by (rule ns_update_eq_spec)
qed

theorem ns_update_applies_rules_in_order_witness:
  "well_formed 10 2 2 \<lparr>pos = [0, 5], vel = [0, 0], rng = sconst (1 / 2)\<rparr> \<and>
   ns_update 10 2 2 (1 / 5) \<lparr>pos = [0, 5], vel = [0, 0], rng = sconst (1 / 2)\<rparr> =
     Inr (spec_step 10 2 2 (1 / 5) \<lparr>pos = [0, 5], vel = [0, 0], rng = sconst (1 / 2)\<rparr>)"
proof -
  have wf: "well_formed 10 2 2 \<lparr>pos = [0, 5], vel = [0, 0], rng = sconst (1 / 2)\<rparr>"
    by (simp add: well_formed_def)
  from wf ns_update_applies_rules_in_order[OF wf] show ?thesis by simp
qed

section \<open>The ring invariant of the update loop\<close>

lemma wrap_norm_length [simp]:
  "pos s \<noteq> [] \<Longrightarrow> length (pos (wrap_norm L s)) = length (pos s)"
  "vel s \<noteq> [] \<Longrightarrow> length (vel (wrap_norm L s)) = length (vel s)"
  by (simp_all add: wrap_norm_def)

lemma ns_loop_fold:
  assumes "length (pos s) = N" "length (vel s) = N" "\<forall>i\<in>set js. i < N"
  shows "ns_loop L N vmax p js s =
         Inr (fold (\<lambda>i t. wrap_norm L (agent_rules L N vmax p i t)) js s)"
  using assms
proof (induction js arbitrary: s)
  case Nil
  then show ?case by simp
next
  case (Cons j js)
  let ?t = "wrap_norm L (agent_rules L N vmax p j s)"
  from Cons.prems have j: "j < N" by simp
  then have ne: "pos (agent_rules L N vmax p j s) \<noteq> []" "vel (agent_rules L N vmax p j s) \<noteq> []"
    using Cons.prems by (auto simp flip: length_0_conv)
  from Cons.prems j have b: "ns_body L N vmax p j s = Inr ?t"
    by (simp add: ns_body_eq)
  have "ns_loop L N vmax p js ?t = Inr (fold (\<lambda>i t. wrap_norm L (agent_rules L N vmax p i t)) js ?t)"
    using Cons.prems ne by (intro Cons.IH) simp_all
  with b show ?case by simp
qed

lemma rule_bounds:
  assumes "-1 \<le> v" "v \<le> vmax" "0 \<le> vmax" "1 \<le> gap"
  shows "0 \<le> rule_random p r (rule_slow gap (rule_accel vmax v))"
    and "rule_random p r (rule_slow gap (rule_accel vmax v)) \<le> vmax"
    and "rule_random p r (rule_slow gap (rule_accel vmax v)) \<le> gap - 1"
  using assms by (auto simp: rule_random_def rule_slow_def rule_accel_def)

lemma ring_okD:
  assumes "ring_ok L N ps"
  shows "length ps = N" "0 < N" "\<And>i. i + 1 < N \<Longrightarrow> ps ! i < ps ! (i + 1)"
    "0 \<le> ps ! 0" "ps ! (N - 1) < L" "ps ! (N - 1) - ps ! 0 \<le> L - 2"
  using assms by (simp_all add: ring_ok_def)

lemma ring_okI:
  assumes "length ps = N" "0 < N" "\<And>i. i + 1 < N \<Longrightarrow> ps ! i < ps ! (i + 1)"
    "0 \<le> ps ! 0" "ps ! (N - 1) < L" "ps ! (N - 1) - ps ! 0 \<le> L - 2"
  shows "ring_ok L N ps"
  using assms by (simp add: ring_ok_def)

lemma vel_okD:
  assumes "vel_ok lo vmax N vs"
  shows "length vs = N" "\<And>i. i < N \<Longrightarrow> lo \<le> vs ! i" "\<And>i. i < N \<Longrightarrow> vs ! i \<le> vmax"
  using assms by (simp_all add: vel_ok_def)

lemma rules_inner_ring:
  assumes r: "ring_ok L N (pos s)" and v: "vel_ok lo vmax N (vel s)"
    and lo: "-1 \<le> lo" "lo \<le> 0" "0 \<le> vmax" and i: "i + 1 < N"
  shows "ring_ok L N (pos (agent_rules L N vmax p i s))"
    and "vel_ok lo vmax N (vel (agent_rules L N vmax p i s))"
proof -
  let ?ps = "pos s"
  note R = ring_okD[OF r] and V = vel_okD[OF v]
  define w where "w = rule_random p (shd (rng s)) (rule_slow (gap_ahead L N i ?ps) (rule_accel vmax (vel s ! i)))"
  from R(3)[OF i] i have gap: "1 \<le> gap_ahead L N i ?ps"
    by (simp add: gap_ahead_def)
  from V(2)[of i] V(3)[of i] i lo have vi: "-1 \<le> vel s ! i" "vel s ! i \<le> vmax"
    by simp_all
  from rule_bounds[OF vi lo(3) gap, of p "shd (rng s)"]
  have w: "0 \<le> w" "w \<le> vmax" "w \<le> gap_ahead L N i ?ps - 1"
    by (simp_all add: w_def)
  have P: "pos (agent_rules L N vmax p i s) = ?ps[i := ?ps ! i + w]"
    and V': "vel (agent_rules L N vmax p i s) = (vel s)[i := w]"
    by (simp_all add: agent_rules_def Let_def w_def)
  from w i have wi: "?ps ! i + w < ?ps ! (i + 1)"
    by (simp add: gap_ahead_def)
  let ?qs = "?ps[i := ?ps ! i + w]"
  have "ring_ok L N ?qs"
  proof (rule ring_okI)
    show "length ?qs = N" using R(1) by simp
    show "0 < N" by (rule R(2))
    show "?qs ! k < ?qs ! (k + 1)" if k: "k + 1 < N" for k
    proof -
      consider "k = i" | "k + 1 = i" | "k \<noteq> i" "k + 1 \<noteq> i" by blast
      then show ?thesis
      proof cases
        case 1
        with wi i R(1) show ?thesis by simp
      next
        case 2
        with R(3)[OF k] w(1) i R(1) show ?thesis by simp
      next
        case 3
        with R(3)[OF k] show ?thesis by simp
      qed
    qed
    show "0 \<le> ?qs ! 0" using R(4) w(1) R(1) R(2) by (cases "i = 0") simp_all
    show "?qs ! (N - 1) < L" using R(5) i by simp
    show "?qs ! (N - 1) - ?qs ! 0 \<le> L - 2"
      using R(6) R(1) R(2) w(1) i by (cases "i = 0") simp_all
  qed
  then show "ring_ok L N (pos (agent_rules L N vmax p i s))" by (simp only: P)
  have "vel_ok lo vmax N ((vel s)[i := w])"
    using V w lo i by (auto simp: vel_ok_def nth_list_update)
  then show "vel_ok lo vmax N (vel (agent_rules L N vmax p i s))" by (simp only: V')
qed


lemma rules_last_ring:
  assumes r: "ring_ok L N (pos s)" and v: "vel_ok lo vmax N (vel s)"
    and lo: "-1 \<le> lo" "lo \<le> 0" "0 \<le> vmax" and i: "i + 1 = N"
  shows "ring_ok L N (pos (wrap_norm L (agent_rules L N vmax p i s)))"
    and "vel_ok lo vmax N (vel (wrap_norm L (agent_rules L N vmax p i s)))"
proof -
  let ?ps = "pos s" and ?vs = "vel s"
  note R = ring_okD[OF r] and V = vel_okD[OF v]
  from i have Ni: "N - 1 = i" "i < N" by simp_all
  define w where "w = rule_random p (shd (rng s)) (rule_slow (gap_ahead L N i ?ps) (rule_accel vmax (?vs ! i)))"
  have G: "gap_ahead L N i ?ps = (L - ?ps ! i - 1) + ?ps ! 0"
    using i by (simp add: gap_ahead_def)
  from R(6) Ni have gap: "1 \<le> gap_ahead L N i ?ps"
    by (simp add: G)
  from V(2)[of i] V(3)[of i] Ni lo have vi: "-1 \<le> ?vs ! i" "?vs ! i \<le> vmax"
    by simp_all
  from rule_bounds[OF vi lo(3) gap, of p "shd (rng s)"]
  have w: "0 \<le> w" "w \<le> vmax" "w \<le> gap_ahead L N i ?ps - 1"
    by (simp_all add: w_def)
  define x where "x = ?ps ! i + w"
  from w(3) have xle: "x \<le> L - 2 + ?ps ! 0" by (simp add: x_def G)
  from w(1) have xge: "?ps ! i \<le> x" by (simp add: x_def)
  let ?t = "agent_rules L N vmax p i s"
  have P: "pos ?t = ?ps[i := x]" and V': "vel ?t = ?vs[i := w]"
    by (simp_all add: agent_rules_def Let_def w_def x_def)
  have ne: "?ps \<noteq> []" "?vs \<noteq> []" using R(1) R(2) V(1) by auto
  have lastP: "last (pos ?t) = x" and lastV: "last (vel ?t) = w"
    using ne R(1) V(1) Ni by (simp_all add: P V' last_list_update)
  have butP: "butlast (pos ?t) = take i ?ps" and butV: "butlast (vel ?t) = take i ?vs"
    using R(1) V(1) Ni by (simp_all add: P V' butlast_list_update butlast_conv_take)
  show "ring_ok L N (pos (wrap_norm L ?t))"
  proof (cases "L \<le> x")
    case True
    with lastP butP have W: "pos (wrap_norm L ?t) = (x - L) # take i ?ps"
      by (simp add: wrap_norm_def)
    show ?thesis unfolding W
    proof (rule ring_okI)
      show "length ((x - L) # take i ?ps) = N" using R(1) Ni by simp
      show "0 < N" by (rule R(2))
      show "((x - L) # take i ?ps) ! k < ((x - L) # take i ?ps) ! (k + 1)" if k: "k + 1 < N" for k
      proof (cases k)
        case 0
        with k Ni xle show ?thesis by simp
      next
        case (Suc m)
        with k Ni R(3)[of m] show ?thesis by simp
      qed
      show "0 \<le> ((x - L) # take i ?ps) ! 0" using True by simp
      show "((x - L) # take i ?ps) ! (N - 1) < L"
      proof (cases i)
        case 0
        with Ni xle R(5) show ?thesis by simp
      next
        case (Suc m)
        with Ni R(3)[of m] R(5) show ?thesis by simp
      qed
      show "((x - L) # take i ?ps) ! (N - 1) - ((x - L) # take i ?ps) ! 0 \<le> L - 2"
      proof (cases i)
        case 0
        with Ni R(6) show ?thesis by simp
      next
        case (Suc m)
        with Ni R(3)[of m] R(5) True show ?thesis by simp
      qed
    qed
  next
    case False
    with lastP have W: "pos (wrap_norm L ?t) = ?ps[i := x]"
      by (simp add: wrap_norm_def P)
    show ?thesis unfolding W
    proof (rule ring_okI)
      show "length (?ps[i := x]) = N" using R(1) by simp
      show "0 < N" by (rule R(2))
      show "?ps[i := x] ! k < ?ps[i := x] ! (k + 1)" if k: "k + 1 < N" for k
      proof (cases "k + 1 = i")
        case True
        with R(3)[OF k] xge R(1) Ni show ?thesis by simp
      next
        case False
        with R(3)[OF k] k Ni show ?thesis by simp
      qed
      show "0 \<le> ?ps[i := x] ! 0" using R(4) xge R(1) R(2) by (cases "i = 0") simp_all
      show "?ps[i := x] ! (N - 1) < L" using False R(1) Ni by simp
      show "?ps[i := x] ! (N - 1) - ?ps[i := x] ! 0 \<le> L - 2"
        using R(6) R(1) Ni xle by (cases "i = 0") simp_all
    qed
  qed
  have velw: "vel (wrap_norm L ?t) = (if L \<le> x then w # take i ?vs else ?vs[i := w])"
    using lastP lastV butV by (simp add: wrap_norm_def V')
  show "vel_ok lo vmax N (vel (wrap_norm L ?t))"
    unfolding velw vel_ok_def using V w lo Ni
    by (auto simp: nth_list_update nth_Cons')
qed


lemma body_ring:
  assumes r: "ring_ok L N (pos s)" and v: "vel_ok lo vmax N (vel s)"
    and lo: "-1 \<le> lo" "lo \<le> 0" "0 \<le> vmax" and i: "i < N"
  shows "ring_ok L N (pos (wrap_norm L (agent_rules L N vmax p i s)))"
    and "vel_ok lo vmax N (vel (wrap_norm L (agent_rules L N vmax p i s)))"
proof -
  have "ring_ok L N (pos (wrap_norm L (agent_rules L N vmax p i s))) \<and>
        vel_ok lo vmax N (vel (wrap_norm L (agent_rules L N vmax p i s)))"
  proof (cases "i + 1 < N")
    case True
    note inner = rules_inner_ring[OF r v lo True, of p]
    from ring_okD(1,2,5)[OF inner(1)]
    have "last (pos (agent_rules L N vmax p i s)) < L"
      by (simp add: last_conv_nth flip: length_0_conv)
    then have "wrap_norm L (agent_rules L N vmax p i s) = agent_rules L N vmax p i s"
      by (rule wrap_norm_id)
    with inner show ?thesis by simp
  next
    case False
    with i have "i + 1 = N" by simp
    from rules_last_ring[OF r v lo this, of p] show ?thesis by simp
  qed
  then show "ring_ok L N (pos (wrap_norm L (agent_rules L N vmax p i s)))"
    and "vel_ok lo vmax N (vel (wrap_norm L (agent_rules L N vmax p i s)))" by simp_all
qed

lemma fold_body_ring:
  assumes "ring_ok L N (pos s)" "vel_ok lo vmax N (vel s)"
    and lo: "-1 \<le> lo" "lo \<le> 0" "0 \<le> vmax" and "\<forall>i\<in>set js. i < N"
  shows "ring_ok L N (pos (fold (\<lambda>i t. wrap_norm L (agent_rules L N vmax p i t)) js s)) \<and>
         vel_ok lo vmax N (vel (fold (\<lambda>i t. wrap_norm L (agent_rules L N vmax p i t)) js s))"
  using assms(1,2,6)
proof (induction js arbitrary: s)
  case Nil
  then show ?case by simp
next
  case (Cons j js)
  from Cons.prems have j: "j < N" by simp
  note b = body_ring[OF Cons.prems(1,2) lo j, of p]
  from Cons.IH[OF b] Cons.prems(3) show ?case by simp
qed

lemma ns_update_fold:
  assumes "length (pos s) = N" "length (vel s) = N"
  shows "ns_update L N vmax p s =
         Inr (fold (\<lambda>i t. wrap_norm L (agent_rules L N vmax p i t)) [0..<N] s)"
  unfolding ns_update_def using assms by (intro ns_loop_fold) simp_all

lemma ns_update_ring:
  assumes r: "ring_ok L N (pos s)" and v: "vel_ok lo vmax N (vel s)"
    and lo: "-1 \<le> lo" "lo \<le> 0" "0 \<le> vmax"
  shows "\<exists>s'. ns_update L N vmax p s = Inr s' \<and> ring_ok L N (pos s') \<and> vel_ok lo vmax N (vel s')"
proof -
  from r v have len: "length (pos s) = N" "length (vel s) = N"
    by (simp_all add: ring_ok_def vel_ok_def)
  from fold_body_ring[OF r v lo, of "[0..<N]" p] show ?thesis
    by (simp add: ns_update_fold[OF len])
qed

lemma update_one_from_edge:
  assumes "1 < L" "0 \<le> v0" "v0 \<le> vmax"
  shows "\<exists>s'. ns_update L 1 vmax p \<lparr>pos = [L], vel = [v0], rng = r\<rparr> = Inr s' \<and>
           ring_ok L 1 (pos s') \<and> vel_ok (-1) vmax 1 (vel s')"
  using assms
  apply (simp add: ns_update_fold)
  apply (simp add: agent_rules_def wrap_norm_def gap_ahead_def Let_def)
  apply (auto simp: ring_ok_def vel_ok_def rule_random_def rule_slow_def rule_accel_def)
  done

lemma first_rotate:
  assumes e: "edge_start L N (pos s)" and v: "vel_ok 0 vmax N (vel s)"
    and vm: "0 \<le> vmax" and N: "3 \<le> N"
  shows "ring_ok L N (pos (wrap_norm L (agent_rules L N vmax p 0 s)))"
    and "vel_ok 0 vmax N (vel (wrap_norm L (agent_rules L N vmax p 0 s)))"
proof -
  let ?ps = "pos s" and ?vs = "vel s"
  from e have E: "length ?ps = N" "\<And>i. i + 1 < N \<Longrightarrow> ?ps ! i < ?ps ! (i + 1)"
    "1 \<le> ?ps ! 0" "?ps ! (N - 1) = L" "?ps ! (N - 2) \<le> L - 2"
    using N by (simp_all add: edge_start_def)
  note V = vel_okD[OF v]
  obtain M where M: "N = Suc (Suc (Suc M))"
    using N by (metis Suc_le_D numeral_3_eq_3 Suc_le_mono)
  define w where "w = rule_random p (shd (rng s)) (rule_slow (gap_ahead L N 0 ?ps) (rule_accel vmax (?vs ! 0)))"
  have G: "gap_ahead L N 0 ?ps = ?ps ! 1 - ?ps ! 0"
    using N by (simp add: gap_ahead_def)
  from E(2)[of 0] N have gap: "1 \<le> gap_ahead L N 0 ?ps" by (simp add: G)
  from V(2)[of 0] V(3)[of 0] N have vi: "-1 \<le> ?vs ! 0" "?vs ! 0 \<le> vmax" by simp_all
  from rule_bounds[OF vi vm gap, of p "shd (rng s)"]
  have w: "0 \<le> w" "w \<le> vmax" "w \<le> gap_ahead L N 0 ?ps - 1"
    by (simp_all add: w_def)
  define x where "x = ?ps ! 0 + w"
  from w E(3) have x: "1 \<le> x" "x < ?ps ! 1" by (simp_all add: x_def G)
  let ?t = "agent_rules L N vmax p 0 s"
  have P: "pos ?t = ?ps[0 := x]" and V': "vel ?t = ?vs[0 := w]"
    by (simp_all add: agent_rules_def Let_def w_def x_def)
  have ne: "?ps \<noteq> []" "?vs \<noteq> []" using E(1) V(1) M by auto
  have lastP: "last (?ps[0 := x]) = L" and lastV: "last (?vs[0 := w]) = ?vs ! (N - 1)"
    using ne E(1) E(4) V(1) M by (simp_all add: last_list_update last_conv_nth)
  have butP: "butlast (?ps[0 := x]) = (take (N - 1) ?ps)[0 := x]"
    and butV: "butlast (?vs[0 := w]) = (take (N - 1) ?vs)[0 := w]"
    using E(1) V(1) M by (simp_all add: butlast_conv_take take_update_swap)
  have W: "pos (wrap_norm L ?t) = 0 # (take (N - 1) ?ps)[0 := x]"
    and WV: "vel (wrap_norm L ?t) = ?vs ! (N - 1) # (take (N - 1) ?vs)[0 := w]"
    using lastP lastV butP butV by (simp_all add: wrap_norm_def P V')
  show "ring_ok L N (pos (wrap_norm L ?t))"
    unfolding W
  proof (rule ring_okI)
    show "length (0 # (take (N - 1) ?ps)[0 := x]) = N" using E(1) M by simp
    show "0 < N" using M by simp
    show "(0 # (take (N - 1) ?ps)[0 := x]) ! k < (0 # (take (N - 1) ?ps)[0 := x]) ! (k + 1)"
      if k: "k + 1 < N" for k
    proof -
      consider "k = 0" | "k = 1" | m where "k = Suc (Suc m)"
        by (metis One_nat_def not0_implies_Suc)
      then show ?thesis
      proof cases
        case 1
        with x E(1) M show ?thesis by simp
      next
        case 2
        with x E(1) M show ?thesis by simp
      next
        case 3
        with k E(2)[of "Suc m"] E(1) M show ?thesis by simp
      qed
    qed
    show "0 \<le> (0 # (take (N - 1) ?ps)[0 := x]) ! 0" by simp
    show "(0 # (take (N - 1) ?ps)[0 := x]) ! (N - 1) < L"
      using E(5) E(1) M by simp
    show "(0 # (take (N - 1) ?ps)[0 := x]) ! (N - 1) - (0 # (take (N - 1) ?ps)[0 := x]) ! 0 \<le> L - 2"
      using E(5) E(1) M by simp
  qed
  have "0 \<le> (?vs ! (N - 1) # (take (N - 1) ?vs)[0 := w]) ! k \<and>
        (?vs ! (N - 1) # (take (N - 1) ?vs)[0 := w]) ! k \<le> vmax" if k: "k < N" for k
  proof (cases k)
    case 0
    with V(2)[of "N - 1"] V(3)[of "N - 1"] M show ?thesis by simp
  next
    case (Suc m)
    show ?thesis
    proof (cases m)
      case 0
      with Suc w V(1) M show ?thesis by simp
    next
      case (Suc j)
      with \<open>k = Suc m\<close> k V(2)[of m] V(3)[of m] V(1) M show ?thesis by simp
    qed
  qed
  then show "vel_ok 0 vmax N (vel (wrap_norm L ?t))"
    unfolding WV vel_ok_def using V(1) M by simp
qed

lemma update_two_from_edge:
  assumes "1 \<le> a" "a < L" "2 < L" "0 \<le> v0" "v0 \<le> vmax" "0 \<le> v1" "v1 \<le> vmax"
  shows "\<exists>s'. ns_update L 2 vmax p \<lparr>pos = [a, L], vel = [v0, v1], rng = r\<rparr> = Inr s' \<and>
           ring_ok L 2 (pos s') \<and> vel_ok (-1) vmax 2 (vel s')"
  using assms
  apply (simp add: ns_update_fold)
  apply (simp add: numeral_2_eq_2 agent_rules_def wrap_norm_def gap_ahead_def Let_def)
  apply (auto simp: ring_ok_def vel_ok_def rule_random_def rule_slow_def rule_accel_def
      nth_Cons' less_Suc_eq)
  done

section \<open>Initialisation and the states the notebook reaches\<close>

lemma init_pos_loop_run:
  assumes "length ps = N" "length gaps = N" "1 \<le> k" "k \<le> N"
  shows "\<exists>qs. init_pos_loop gaps [k..<N] ps = Inr qs \<and> length qs = N \<and>
           (\<forall>j<k. qs ! j = ps ! j) \<and>
           (\<forall>j. k \<le> j \<and> j < N \<longrightarrow> qs ! j = qs ! (j - 1) + gaps ! j)"
  using assms
proof (induction "N - k" arbitrary: k ps)
  case 0
  then show ?case by simp
next
  case (Suc d)
  then have k: "k < N" by simp
  let ?ps = "ps[k := ps ! (k - 1) + gaps ! k]"
  from k Suc.prems have step: "init_pos_loop gaps [k..<N] ps = init_pos_loop gaps [Suc k..<N] ?ps"
    by (simp add: upt_conv_Cons)
  from Suc.hyps(2) have d: "d = N - Suc k" by simp
  from Suc.hyps(1)[OF d, of ?ps] Suc.prems k
  obtain qs where qs: "init_pos_loop gaps [Suc k..<N] ?ps = Inr qs" "length qs = N"
    "\<forall>j<Suc k. qs ! j = ?ps ! j"
    "\<forall>j. Suc k \<le> j \<and> j < N \<longrightarrow> qs ! j = qs ! (j - 1) + gaps ! j"
    by auto
  have "qs ! j = ps ! j" if "j < k" for j
    using qs(3) that by (auto dest!: spec[of _ j])
  moreover have "qs ! j = qs ! (j - 1) + gaps ! j" if "k \<le> j \<and> j < N" for j
  proof (cases "j = k")
    case True
    from qs(3) have a: "qs ! k = ?ps ! k" by simp
    from qs(3) Suc.prems(3) have b: "qs ! (k - 1) = ?ps ! (k - 1)" by simp
    from a b True k Suc.prems show ?thesis by simp
  next
    case False
    with that qs(4) show ?thesis by simp
  qed
  ultimately show ?case using step qs(1,2) by auto
qed

lemma init_pos_facts:
  assumes "init_pos N gaps = Inr ps" "length gaps = N" "0 < N"
  shows "length ps = N" "ps ! 0 = gaps ! 0"
    "\<And>j. j + 1 < N \<Longrightarrow> ps ! (j + 1) = ps ! j + gaps ! (j + 1)"
proof -
  from assms have i: "init_pos N gaps = init_pos_loop gaps [1..<N] ((replicate N 0)[0 := gaps ! 0])"
    by (simp add: init_pos_def)
  from init_pos_loop_run[of "(replicate N 0)[0 := gaps ! 0]" N gaps 1] assms
  obtain qs where qs: "init_pos_loop gaps [1..<N] ((replicate N 0)[0 := gaps ! 0]) = Inr qs"
    "length qs = N" "\<forall>j<1. qs ! j = ((replicate N 0)[0 := gaps ! 0]) ! j"
    "\<forall>j. 1 \<le> j \<and> j < N \<longrightarrow> qs ! j = qs ! (j - 1) + gaps ! j"
    by auto
  from i qs(1) assms(1) have eq: "ps = qs" by simp
  show "length ps = N" using qs(2) eq by simp
  show "ps ! 0 = gaps ! 0" using qs(3) eq assms(3) by simp
  show "ps ! (j + 1) = ps ! j + gaps ! (j + 1)" if "j + 1 < N" for j
    using qs(4) that eq by (auto dest!: spec[of _ "j + 1"])
qed


lemma init_pos_bounds:
  assumes i: "init_pos N gaps = Inr ps" and l: "length gaps = N" and N: "0 < N"
    and g: "list_all (\<lambda>x. 1 \<le> x \<and> x \<le> g) gaps"
  shows "\<And>j. j + 1 < N \<Longrightarrow> ps ! j < ps ! (j + 1)"
    and "1 \<le> ps ! 0"
    and "\<And>j. j < N \<Longrightarrow> ps ! j \<le> (int j + 1) * g"
proof -
  note F = init_pos_facts[OF i l N]
  from g l have G: "\<And>j. j < N \<Longrightarrow> 1 \<le> gaps ! j \<and> gaps ! j \<le> g"
    by (simp add: list_all_length)
  show "ps ! j < ps ! (j + 1)" if "j + 1 < N" for j
    using F(3)[OF that] G[OF that] by simp
  show "1 \<le> ps ! 0" using F(2) G[OF N] by simp
  show "ps ! j \<le> (int j + 1) * g" if "j < N" for j
    using that
  proof (induction j)
    case 0
    then show ?case using F(2) G[OF N] by simp
  next
    case (Suc j)
    then have "ps ! j \<le> (int j + 1) * g" by simp
    moreover from F(3)[of j] Suc.prems have "ps ! Suc j = ps ! j + gaps ! Suc j" by simp
    moreover from G[OF Suc.prems] have "gaps ! Suc j \<le> g" by simp
    ultimately show ?case by (simp add: algebra_simps)
  qed
qed

lemma init_pos_shape:
  assumes i: "init_pos N gaps = Inr ps" and l: "length gaps = N" and N: "0 < N" "int N < L"
    and g: "list_all (\<lambda>x. 1 \<le> x \<and> x \<le> L div int N) gaps"
  shows "ring_ok L N ps \<or> edge_start L N ps"
proof -
  let ?g = "L div int N"
  note F = init_pos_facts[OF i l N(1)] and B = init_pos_bounds[OF i l N(1) g]
  from g l N have g1: "1 \<le> ?g"
    by (auto simp: list_all_length dest!: spec[of _ 0])
  have Ng: "int N * ?g \<le> L"
  proof -
    have "0 \<le> L mod int N" using N(1) by simp
    moreover have "int N * ?g + L mod int N = L" by (rule mult_div_mod_eq)
    ultimately show ?thesis by linarith
  qed
  from B(3)[of "N - 1"] N(1) have last_le: "ps ! (N - 1) \<le> L"
    using Ng by (simp add: of_nat_diff)
  have pen: "ps ! (N - 2) \<le> L - 2" if "2 \<le> N"
  proof -
    from B(3)[of "N - 2"] that have a: "ps ! (N - 2) \<le> (int N - 1) * ?g"
      by (simp add: of_nat_diff)
    show ?thesis
    proof (cases "?g = 1")
      case True
      with a N(2) show ?thesis by simp
    next
      case False
      with g1 have "2 \<le> ?g" by simp
      with a Ng show ?thesis by (simp add: algebra_simps)
    qed
  qed
  show ?thesis
  proof (cases "ps ! (N - 1) < L")
    case True
    have "ring_ok L N ps"
    proof (rule ring_okI)
      show "length ps = N" by (rule F(1))
      show "0 < N" by (rule N(1))
      show "ps ! k < ps ! (k + 1)" if "k + 1 < N" for k by (rule B(1)[OF that])
      show "0 \<le> ps ! 0" using B(2) by simp
      show "ps ! (N - 1) < L" by (rule True)
      show "ps ! (N - 1) - ps ! 0 \<le> L - 2" using True B(2) by simp
    qed
    then show ?thesis ..
  next
    case False
    with last_le have "ps ! (N - 1) = L" by simp
    with F(1) N(1) B(1) B(2) pen have "edge_start L N ps"
      by (simp add: edge_start_def)
    then show ?thesis ..
  qed
qed


lemma vel_ok_mono: "vel_ok lo vmax N vs \<Longrightarrow> lo' \<le> lo \<Longrightarrow> vel_ok lo' vmax N vs"
  by (auto simp: vel_ok_def)

lemma edge_update:
  assumes e: "edge_start L N (pos s)" and v: "vel_ok 0 vmax N (vel s)"
    and vm: "0 \<le> vmax" and NL: "int N < L"
  shows "\<exists>s'. ns_update L N vmax p s = Inr s' \<and>
           ring_ok L N (pos s') \<and> vel_ok (-1) vmax N (vel s')"
proof -
  from e have E: "length (pos s) = N" "0 < N" "1 \<le> pos s ! 0" "pos s ! (N - 1) = L"
    by (simp_all add: edge_start_def)
  note V = vel_okD[OF v]
  consider "N = 1" | "N = 2" | "3 \<le> N" using E(2) by linarith
  then show ?thesis
  proof cases
    case 1
    with E have P: "pos s = [L]"
      by (cases "pos s") simp_all
    from 1 V(1) obtain v0 where Q: "vel s = [v0]"
      by (cases "vel s") simp_all
    from P Q have S: "s = \<lparr>pos = [L], vel = [v0], rng = rng s\<rparr>"
      by (cases s) simp
    from 1 NL V(2)[of 0] V(3)[of 0] Q
    have "\<exists>s'. ns_update L 1 vmax p \<lparr>pos = [L], vel = [v0], rng = rng s\<rparr> = Inr s' \<and>
           ring_ok L 1 (pos s') \<and> vel_ok (-1) vmax 1 (vel s')"
      by (intro update_one_from_edge) simp_all
    with 1 S show ?thesis by metis
  next
    case 2
    from 2 E(1) obtain a b where ab: "pos s = [a, b]"
      by (cases "pos s"; cases "tl (pos s)") auto
    with 2 E(4) have b: "b = L" by simp
    from 2 V(1) obtain v0 v1 where Q: "vel s = [v0, v1]"
      by (cases "vel s"; cases "tl (vel s)") auto
    from ab b Q have S: "s = \<lparr>pos = [a, L], vel = [v0, v1], rng = rng s\<rparr>"
      by (cases s) simp
    from e 2 ab b have a: "1 \<le> a" "a < L"
      by (auto simp: edge_start_def)
    from 2 NL a V(2)[of 0] V(3)[of 0] V(2)[of 1] V(3)[of 1] Q
    have "\<exists>s'. ns_update L 2 vmax p \<lparr>pos = [a, L], vel = [v0, v1], rng = rng s\<rparr> = Inr s' \<and>
           ring_ok L 2 (pos s') \<and> vel_ok (-1) vmax 2 (vel s')"
      by (intro update_two_from_edge) simp_all
    with 2 S show ?thesis by metis
  next
    case 3
    let ?f = "\<lambda>i t. wrap_norm L (agent_rules L N vmax p i t)"
    note fr = first_rotate[OF e v vm 3, of p]
    from fold_body_ring[OF fr, of "[1..<N]" p] vm
    have r: "ring_ok L N (pos (fold ?f [1..<N] (?f 0 s)))"
      and w: "vel_ok 0 vmax N (vel (fold ?f [1..<N] (?f 0 s)))"
      by simp_all
    from E(2) have "[0..<N] = 0 # [1..<N]" by (simp add: upt_conv_Cons)
    then have "ns_update L N vmax p s = Inr (fold ?f [1..<N] (?f 0 s))"
      using ns_update_fold[OF E(1) V(1), of L vmax p] by simp
    with r vel_ok_mono[OF w, of "-1"] show ?thesis by simp
  qed
qed

lemma reachable_inv:
  assumes "reachable L N vmax p s" "0 < N" "int N < L" "0 \<le> vmax"
  shows "(ring_ok L N (pos s) \<and> vel_ok (-1) vmax N (vel s)) \<or>
         (edge_start L N (pos s) \<and> vel_ok 0 vmax N (vel s))"
  using assms
proof (induction rule: reachable.induct)
  case (start gaps ps vs r)
  from start.hyps(4,5) have v: "vel_ok 0 vmax N vs"
    by (simp add: vel_ok_def list_all_length)
  from init_pos_shape[OF start.hyps(3,1) start.prems(1,2) start.hyps(2)]
  show ?case using v vel_ok_mono[OF v, of "-1"] by auto
next
  case (tick s s')
  from tick.IH[OF tick.prems] show ?case
  proof
    assume "ring_ok L N (pos s) \<and> vel_ok (- 1) vmax N (vel s)"
    then have "\<exists>t. ns_update L N vmax p s = Inr t \<and> ring_ok L N (pos t) \<and> vel_ok (-1) vmax N (vel t)"
      using tick.prems by (intro ns_update_ring) simp_all
    with tick.hyps(2) show ?thesis by auto
  next
    assume "edge_start L N (pos s) \<and> vel_ok 0 vmax N (vel s)"
    then have "\<exists>t. ns_update L N vmax p s = Inr t \<and> ring_ok L N (pos t) \<and> vel_ok (-1) vmax N (vel t)"
      using tick.prems by (intro edge_update) simp_all
    with tick.hyps(2) show ?thesis by auto
  qed
qed

lemma ascending_sorted:
  assumes "\<And>i. i + 1 < length ps \<Longrightarrow> (ps ! i :: int) < ps ! (i + 1)"
  shows "sorted_wrt (<) ps" and "distinct ps"
proof -
  have "transp ((<) :: int \<Rightarrow> int \<Rightarrow> bool)" by (rule transp_on_less)
  from sorted_wrt_iff_nth_Suc_transp[OF this, of ps] assms
  show "sorted_wrt (<) ps" by simp
  then show "distinct ps" by (simp add: strict_sorted_iff)
qed

lemma ring_ok_in_track:
  assumes r: "ring_ok L N ps"
  shows "list_all (\<lambda>x. 0 \<le> x \<and> x < L) ps"
proof -
  note R = ring_okD[OF r]
  from R(3) R(1) have s: "sorted_wrt (<) ps" by (intro ascending_sorted) simp
  have "0 \<le> ps ! k \<and> ps ! k < L" if k: "k < N" for k
  proof -
    have "ps ! 0 \<le> ps ! k"
    proof (cases "k = 0")
      case False
      then have "0 < k" by simp
      from sorted_wrt_nth_less[OF s this] k R(1) show ?thesis by simp
    qed simp
    moreover have "ps ! k \<le> ps ! (N - 1)"
    proof (cases "k = N - 1")
      case False
      with k have "k < N - 1" by simp
      from sorted_wrt_nth_less[OF s this] k R(1) show ?thesis by simp
    qed simp
    ultimately show ?thesis using R(4,5) by simp
  qed
  with R(1) show ?thesis by (simp add: list_all_length)
qed

text \<open>
  C4. With \<open>0 < N < L\<close> and \<open>vmax \<ge> 0\<close>, every state the notebook reaches (an outcome
  of the initialisation followed by any number of passes of the update loop) holds the
  vehicles in strictly ascending positions, so no two share a cell; the next pass raises
  nothing and again gives strictly ascending, pairwise distinct positions, all inside
  \<open>0 .. L-1\<close>. The list is kept ascending by the wrap normalisation: when the pass
  starts on the track, its result is the per-vehicle rules followed by \<open>wrap_norm\<close>,
  which subtracts \<open>L\<close> from a last vehicle at or beyond \<open>L\<close> and moves it to the front.
\<close>

theorem reachable_cells_distinct_and_ordered:
  assumes "0 < N" "int N < L" "0 \<le> vmax" "reachable L N vmax p s"
  shows "length (pos s) = N \<and> sorted_wrt (<) (pos s) \<and> distinct (pos s) \<and>
         (\<exists>s'. ns_update L N vmax p s = Inr s' \<and>
               length (pos s') = N \<and> sorted_wrt (<) (pos s') \<and> distinct (pos s') \<and>
               list_all (\<lambda>x. 0 \<le> x \<and> x < L) (pos s') \<and>
               (last (pos s) < L \<longrightarrow>
                  s' = wrap_norm L (fold (agent_rules L N vmax p) [0..<N] s)))"
proof -
  note inv = reachable_inv[OF assms(4,1,2,3)]
  have now: "length (pos s) = N \<and> sorted_wrt (<) (pos s) \<and> distinct (pos s)"
    using inv ascending_sorted[of "pos s"] by (auto simp: ring_ok_def edge_start_def)
  from inv have "\<exists>t. ns_update L N vmax p s = Inr t \<and> ring_ok L N (pos t) \<and> vel_ok (-1) vmax N (vel t)"
  proof
    assume "ring_ok L N (pos s) \<and> vel_ok (- 1) vmax N (vel s)"
    then show ?thesis using assms by (intro ns_update_ring) simp_all
  next
    assume "edge_start L N (pos s) \<and> vel_ok 0 vmax N (vel s)"
    then show ?thesis using assms by (intro edge_update) simp_all
  qed
  then obtain t where t: "ns_update L N vmax p s = Inr t" "ring_ok L N (pos t)" by blast
  from ring_okD(1,3)[OF t(2)] have "sorted_wrt (<) (pos t)" "distinct (pos t)"
    using ascending_sorted[of "pos t"] by simp_all
  moreover note ring_ok_in_track[OF t(2)] ring_okD(1)[OF t(2)]
  moreover have "t = wrap_norm L (fold (agent_rules L N vmax p) [0..<N] s)" if "last (pos s) < L"
  proof -
    from inv have "length (vel s) = N" by (auto simp: vel_ok_def)
    with now assms(1) that have "ns_update L N vmax p s = Inr (spec_step L N vmax p s)"
      by (intro ns_update_eq_spec) simp_all
    with t(1) show ?thesis by (simp add: spec_step_def)
  qed
  ultimately show ?thesis using now t(1) by simp
qed

theorem reachable_cells_distinct_and_ordered_witness:
  "reachable 4 2 2 (1 / 5) \<lparr>pos = [2, 4], vel = [0, 0], rng = sconst (1 / 2)\<rparr> \<and>
   distinct [2, 4 :: int] \<and>
   (\<exists>s'. ns_update 4 2 2 (1 / 5) \<lparr>pos = [2, 4], vel = [0, 0], rng = sconst (1 / 2)\<rparr> = Inr s' \<and>
         distinct (pos s') \<and> list_all (\<lambda>x. 0 \<le> x \<and> x < 4) (pos s'))"
proof -
  have i: "init_pos 2 [2, 2] = Inr [2, 4]"
    by (simp add: init_pos_def numeral_2_eq_2 upt_rec)
  have r: "reachable 4 2 2 (1 / 5) \<lparr>pos = [2, 4], vel = [0, 0], rng = sconst (1 / 2)\<rparr>"
    by (rule reachable.start[where gaps = "[2, 2]"]) (simp_all add: i)
  have "(0::nat) < 2" "int 2 < 4" "(0::int) \<le> 2" by simp_all
  from reachable_cells_distinct_and_ordered[OF this r] r show ?thesis by auto
qed

section \<open>The wrap gap on concrete states\<close>

lemmas ns_eval =
  ns_update_def ns_body_def accelerate_def slow_down_def random_decel_def move_def
  wrap_last_def list_get_def list_set_def list_pop_def upt_rec

text \<open>
  C3. The claim asks that the slowing-down gap of the last vehicle be measured against the
  position vehicle 0 had at the start of the tick. The loop has already moved vehicle 0
  when it reaches the last vehicle, and \<open>pos[0]\<close> is read from the mutated list. On a
  track of 10 cells with vehicles at 0 and 8, both stopped, \<open>vmax = 2\<close> and \<open>p = 0\<close>:
  vehicle 0 moves to 1; against the start-of-tick list the last vehicle would have gap 1
  and stay at 8 with velocity 0, against the mutated list it has gap 2, keeps velocity 1
  and moves to 9, which is what the loop returns.
\<close>

theorem wrap_gap_reads_moved_vehicle_0:
  "ns_update 10 2 2 0 \<lparr>pos = [0, 8], vel = [0, 0], rng = sconst (1 / 2)\<rparr> =
     Inr \<lparr>pos = [1, 9], vel = [1, 1], rng = sconst (1 / 2)\<rparr> \<and>
   rule_slow (gap_ahead 10 2 1 [0, 8]) (rule_accel 2 0) = 0 \<and>
   rule_slow (gap_ahead 10 2 1 [1, 8]) (rule_accel 2 0) = 1"
  by (simp add: ns_eval gap_ahead_def rule_slow_def rule_accel_def)


section \<open>Drawing the space-time diagram\<close>

lemma draw_loop_fails:
  assumes "i \<in> set js"
    and "\<not> (- int (length row) \<le> pos s ! i \<and> pos s ! i < int (length row))"
  shows "draw_loop s js row = Inl IndexError"
  using assms
  by (induction js arbitrary: row)
     (auto simp: list_get_def np_index_def and_then_def split: sum.splits if_splits)



lemma draw_row_at_L_raises:
  assumes "0 < N" "length ps = N" "last ps = L"
  shows "draw_row L N \<lparr>pos = ps, vel = vs, rng = r\<rparr> = Inl IndexError"
proof -
  from assms have l: "ps ! (N - 1) = L"
    by (simp add: last_conv_nth flip: length_0_conv)
  have "draw_loop \<lparr>pos = ps, vel = vs, rng = r\<rparr> [0..<N] (replicate (nat L) 0) = Inl IndexError"
    using assms(1) l by (intro draw_loop_fails[where i = "N - 1"]) auto
  then show ?thesis by (simp add: draw_row_def)
qed

lemma np_index_ok: "0 \<le> k \<Longrightarrow> k < int n \<Longrightarrow> np_index n k = Inr (nat k)"
  by (simp add: np_index_def)

lemma draw_loop_fold:
  assumes "\<forall>i\<in>set js. i < length (vel s) \<and> i < length (pos s) \<and>
             0 \<le> pos s ! i \<and> pos s ! i < int (length row)"
  shows "draw_loop s js row = Inr (fold (paint s) js row)"
  using assms
proof (induction js arbitrary: row)
  case Nil
  then show ?case by simp
next
  case (Cons j js)
  from Cons.prems have "draw_loop s (j # js) row = draw_loop s js (paint s j row)"
    by (simp add: np_index_ok paint_def)
  also have "\<dots> = Inr (fold (paint s) js (paint s j row))"
    using Cons.prems by (intro Cons.IH) (simp add: paint_def)
  finally show ?case by simp
qed

lemma paint_length [simp]: "length (paint s j row) = length row"
  by (simp add: paint_def)

lemma fold_paint_length [simp]: "length (fold (paint s) js row) = length row"
  by (induction js arbitrary: row) simp_all

lemma fold_paint_other:
  assumes "\<forall>i\<in>set js. nat (pos s ! i) \<noteq> c"
  shows "fold (paint s) js row ! c = row ! c"
  using assms by (induction js arbitrary: row) (simp_all add: paint_def)

lemma fold_paint_hit:
  assumes "i \<in> set js" "nat (pos s ! i) < length row"
    and "\<forall>j\<in>set js. j \<noteq> i \<longrightarrow> nat (pos s ! j) \<noteq> nat (pos s ! i)"
  shows "fold (paint s) js row ! nat (pos s ! i) = draw_code (vel s ! i)"
  using assms
proof (induction js arbitrary: row)
  case Nil
  then show ?case by simp
next
  case (Cons j js)
  show ?case
  proof (cases "i \<in> set js")
    case True
    from Cons.IH[OF True, of "paint s j row"] Cons.prems show ?thesis by simp
  next
    case False
    with Cons.prems have j: "j = i" by simp
    from False Cons.prems(3) have "\<forall>k\<in>set js. nat (pos s ! k) \<noteq> nat (pos s ! i)"
      by auto
    from fold_paint_other[OF this, of "paint s j row"]
    have "fold (paint s) js (paint s j row) ! nat (pos s ! i) = paint s j row ! nat (pos s ! i)" .
    moreover from Cons.prems(2) j have "paint s j row ! nat (pos s ! i) = draw_code (vel s ! i)"
      by (simp add: paint_def)
    ultimately show ?thesis by simp
  qed
qed

lemma fold_paint_values:
  assumes "list_all (\<lambda>x. 0 \<le> x \<and> x \<le> 3) row"
  shows "list_all (\<lambda>x. 0 \<le> x \<and> x \<le> 3) (fold (paint s) js row)"
  using assms
proof (induction js arbitrary: row)
  case Nil
  then show ?case by simp
next
  case (Cons j js)
  have "list_all (\<lambda>x. 0 \<le> x \<and> x \<le> 3) (paint s j row)"
    using Cons.prems set_update_subset_insert[of row "nat (pos s ! j)" "draw_code (vel s ! j)"]
    by (auto simp: paint_def list_all_iff draw_code_def)
  from Cons.IH[OF this] show ?case by simp
qed

text \<open>
  C9, as stated, fails: the draw loop knows three levels only. With \<open>vmax = 3\<close> a
  vehicle of velocity 3 in cell 0 of a track of 2 cells is drawn as 3, not as
  \<open>velocity + 1 = 4\<close>.
\<close>

theorem draw_velocity_3_counterexample:
  "well_formed 2 1 3 \<lparr>pos = [0], vel = [3], rng = sconst (1 / 2)\<rparr> \<and>
   draw_row 2 1 \<lparr>pos = [0], vel = [3], rng = sconst (1 / 2)\<rparr> = Inr [3, 0] \<and>
   [3, 0 :: int] ! nat 0 \<noteq> 3 + 1"
  by (simp add: well_formed_def draw_row_def list_get_def np_index_def draw_code_def
      numeral_2_eq_2)

text \<open>
  C9, amended. For vehicles in pairwise distinct cells of the track, the row drawn for a
  tick has width \<open>L\<close>, holds \<open>draw_code\<close> of the velocity in the cell of each vehicle
  (1 for velocity 0, 2 for velocity 1, 3 for every other velocity, so \<open>velocity + 1\<close>
  exactly for the velocities 0, 1, 2), holds 0 in every cell without a vehicle, and all
  its values lie in \<open>0 .. 3\<close>.
\<close>

theorem draw_row_encodes_three_levels:
  assumes len: "length (pos s) = N" "length (vel s) = N"
    and d: "distinct (pos s)" and tr: "list_all (\<lambda>x. 0 \<le> x \<and> x < L) (pos s)"
  shows "\<exists>row. draw_row L N s = Inr row \<and> length row = nat L \<and>
           (\<forall>i<N. row ! nat (pos s ! i) = draw_code (vel s ! i)) \<and>
           (\<forall>i<N. 0 \<le> vel s ! i \<and> vel s ! i \<le> 2 \<longrightarrow> row ! nat (pos s ! i) = vel s ! i + 1) \<and>
           (\<forall>c<nat L. int c \<notin> set (pos s) \<longrightarrow> row ! c = 0) \<and>
           list_all (\<lambda>x. 0 \<le> x \<and> x \<le> 3) row"
proof -
  let ?row = "fold (paint s) [0..<N] (replicate (nat L) 0)"
  from tr len have T: "\<And>i. i < N \<Longrightarrow> 0 \<le> pos s ! i \<and> pos s ! i < L"
    by (simp add: list_all_length)
  have "\<forall>i\<in>set [0..<N]. i < length (vel s) \<and> i < length (pos s) \<and>
          0 \<le> pos s ! i \<and> pos s ! i < int (length (replicate (nat L) (0::int)))"
  proof
    fix i assume "i \<in> set [0..<N]"
    then have "i < N" by simp
    with T[of i] len show "i < length (vel s) \<and> i < length (pos s) \<and>
          0 \<le> pos s ! i \<and> pos s ! i < int (length (replicate (nat L) (0::int)))" by simp
  qed
  then have run: "draw_row L N s = Inr ?row"
    unfolding draw_row_def by (rule draw_loop_fold)
  have inj: "nat (pos s ! j) \<noteq> nat (pos s ! i)" if "i < N" "j < N" "j \<noteq> i" for i j
  proof -
    from d len that have "pos s ! j \<noteq> pos s ! i" by (simp add: nth_eq_iff_index_eq)
    with T[OF that(1)] T[OF that(2)] show ?thesis by auto
  qed
  have hit: "?row ! nat (pos s ! i) = draw_code (vel s ! i)" if "i < N" for i
    using that T[OF that] inj[OF that] by (intro fold_paint_hit) auto
  have code: "draw_code v = v + 1" if "0 \<le> v \<and> v \<le> 2" for v
    using that by (auto simp: draw_code_def)
  have empty: "?row ! c = 0" if "c < nat L" "int c \<notin> set (pos s)" for c
  proof -
    have "\<forall>i\<in>set [0..<N]. nat (pos s ! i) \<noteq> c"
    proof
      fix i assume "i \<in> set [0..<N]"
      then have i: "i < N" by simp
      with len have "pos s ! i \<in> set (pos s)" by simp
      with that(2) have "pos s ! i \<noteq> int c" by auto
      with T[OF i] show "nat (pos s ! i) \<noteq> c" by auto
    qed
    from fold_paint_other[OF this] that(1) show ?thesis by simp
  qed
  have vals: "list_all (\<lambda>x. 0 \<le> x \<and> x \<le> 3) ?row"
    by (intro fold_paint_values) (simp add: list_all_length)
  from run hit code empty vals show ?thesis by simp
qed

theorem draw_row_encodes_three_levels_witness:
  "\<exists>row. draw_row 10 2 \<lparr>pos = [0, 5], vel = [0, 2], rng = sconst (1 / 2)\<rparr> = Inr row \<and>
      row ! 0 = 1 \<and> row ! 5 = 3 \<and> row ! 1 = 0"
proof -
  have "length (pos \<lparr>pos = [0, 5], vel = [0, 2], rng = sconst (1 / 2)\<rparr>) = 2"
    "length (vel \<lparr>pos = [0, 5], vel = [0, 2], rng = sconst (1 / 2)\<rparr>) = 2"
    "distinct (pos \<lparr>pos = [0, 5], vel = [0, 2], rng = sconst (1 / 2)\<rparr>)"
    "list_all (\<lambda>x. 0 \<le> x \<and> x < 10) (pos \<lparr>pos = [0, 5], vel = [0, 2], rng = sconst (1 / 2)\<rparr>)"
    by simp_all
  from draw_row_encodes_three_levels[OF this] obtain row where
    r: "draw_row 10 2 \<lparr>pos = [0, 5], vel = [0, 2], rng = sconst (1 / 2)\<rparr> = Inr row"
    and h: "\<forall>i<2. row ! nat ([0, 5] ! i) = draw_code ([0, 2] ! i)"
    and e: "\<forall>c<nat 10. int c \<notin> set [0, 5 :: int] \<longrightarrow> row ! c = 0"
    by auto
  from h[rule_format, of 0] h[rule_format, of 1] e[rule_format, of 1]
  have "row ! 0 = 1" "row ! 5 = 3" "row ! 1 = 0"
    by (simp_all add: draw_code_def)
  with r show ?thesis by blast
qed

section \<open>Runs with slowdown probability 0\<close>

lemma unit_draws_shd: "unit_draws r \<Longrightarrow> \<not> shd r < 0"
  using shd_sset[of r] by (auto simp: unit_draws_def)

lemma unit_draws_stl: "unit_draws r \<Longrightarrow> unit_draws (stl r)"
  by (auto simp: unit_draws_def dest: stl_sset)

lemma and_then_rel:
  assumes "rel_sum (=) R m n" and "\<And>x y. R x y \<Longrightarrow> rel_sum (=) R' (f x) (g y)"
  shows "rel_sum (=) R' (and_then m f) (and_then n g)"
  using assms by (cases m; cases n) auto

lemma accelerate_rel:
  "same_cars s t \<Longrightarrow> rel_sum (=) same_cars (accelerate vmax i s) (accelerate vmax i t)"
  by (auto simp: accelerate_def same_cars_def list_get_def list_set_def)

lemma slow_down_rel:
  "same_cars s t \<Longrightarrow> rel_sum (=) same_cars (slow_down L N i s) (slow_down L N i t)"
  by (auto simp: slow_down_def same_cars_def list_get_def list_set_def)

lemma random_decel_rel:
  "same_cars s t \<Longrightarrow> rel_sum (=) same_cars (random_decel 0 i s) (random_decel 0 i t)"
  by (auto simp: random_decel_def same_cars_def list_get_def Let_def
      unit_draws_shd unit_draws_stl)

lemma move_rel:
  "same_cars s t \<Longrightarrow> rel_sum (=) same_cars (move i s) (move i t)"
  by (auto simp: move_def same_cars_def list_get_def list_set_def)

lemma wrap_last_rel:
  "same_cars s t \<Longrightarrow> rel_sum (=) same_cars (wrap_last L N s) (wrap_last L N t)"
  by (auto simp: wrap_last_def same_cars_def list_get_def list_pop_def)

lemma ns_body_rel:
  assumes "same_cars s t"
  shows "rel_sum (=) same_cars (ns_body L N vmax 0 i s) (ns_body L N vmax 0 i t)"
  unfolding ns_body_def
  by (intro and_then_rel[where R = same_cars] accelerate_rel slow_down_rel random_decel_rel
      move_rel wrap_last_rel assms)

lemma ns_loop_rel:
  assumes "same_cars s t"
  shows "rel_sum (=) same_cars (ns_loop L N vmax 0 js s) (ns_loop L N vmax 0 js t)"
  using assms
proof (induction js arbitrary: s t)
  case Nil
  then show ?case by simp
next
  case (Cons j js)
  show ?case
    unfolding ns_loop.simps
    by (rule and_then_rel[where R = same_cars]) (rule ns_body_rel[OF Cons.prems], rule Cons.IH)
qed

lemma draw_loop_cars:
  "pos s = pos t \<Longrightarrow> vel s = vel t \<Longrightarrow> draw_loop s js row = draw_loop t js row"
  by (induction js arbitrary: row) simp_all

lemma simulate_rel:
  assumes "same_cars s t"
  shows "rel_sum (=) (\<lambda>(rows, s') (rows', t'). rows = rows' \<and> same_cars s' t')
           (simulate L N vmax 0 T s) (simulate L N vmax 0 T t)"
  using assms
proof (induction T arbitrary: s t)
  case 0
  then show ?case by simp
next
  case (Suc T)
  from Suc.prems have "pos s = pos t" "vel s = vel t"
    by (simp_all add: same_cars_def)
  then have d: "draw_row L N s = draw_row L N t"
    unfolding draw_row_def by (rule draw_loop_cars)
  have u: "rel_sum (=) same_cars (ns_update L N vmax 0 s) (ns_update L N vmax 0 t)"
    unfolding ns_update_def by (rule ns_loop_rel[OF Suc.prems])
  show ?case
  proof (cases "draw_row L N t")
    case (Inl e)
    with d show ?thesis by simp
  next
    case (Inr row)
    let ?Q = "\<lambda>(rows, s') (rows', t'). rows = rows' \<and> same_cars s' t'"
    let ?k = "\<lambda>(rows, s''). Inr (row # rows, s'') :: exn + (int list list \<times> vehicles)"
    have inner: "rel_sum (=) ?Q (and_then (simulate L N vmax 0 T x) ?k)
                   (and_then (simulate L N vmax 0 T y) ?k)" if "same_cars x y" for x y
      using Suc.IH[OF that]
      by (cases "simulate L N vmax 0 T x"; cases "simulate L N vmax 0 T y") auto
    have "rel_sum (=) ?Q
            (and_then (ns_update L N vmax 0 s) (\<lambda>s'. and_then (simulate L N vmax 0 T s') ?k))
            (and_then (ns_update L N vmax 0 t) (\<lambda>s'. and_then (simulate L N vmax 0 T s') ?k))"
      using u inner by (rule and_then_rel)
    with d Inr show ?thesis by simp
  qed
qed

text \<open>
  C8. With \<open>p = 0\<close> the rows drawn and the final positions and velocities of a
  simulation of any length do not depend on the values the generator returns (any two
  sequences of draws from the interval from 0 to 1 give the same output; the generator is
  still called). On the track of 10 cells with vehicles at 0 and 5, both stopped, and
  \<open>vmax = 2\<close>, one pass gives positions 1, 6 and velocities 1, 1; the gap of vehicle 0
  is 5.
\<close>

theorem zero_probability_ignores_draws:
  assumes "unit_draws r1" "unit_draws r2"
  shows "map_sum id (\<lambda>(rows, s). (rows, pos s, vel s))
           (simulate L N vmax 0 T \<lparr>pos = ps, vel = vs, rng = r1\<rparr>) =
         map_sum id (\<lambda>(rows, s). (rows, pos s, vel s))
           (simulate L N vmax 0 T \<lparr>pos = ps, vel = vs, rng = r2\<rparr>) \<and>
         map_sum id (\<lambda>s. (pos s, vel s))
           (ns_update 10 2 2 0 \<lparr>pos = [0, 5], vel = [0, 0], rng = r1\<rparr>) = Inr ([1, 6], [1, 1]) \<and>
         gap_ahead 10 2 0 [0, 5] = 5"
proof -
  from assms have "same_cars \<lparr>pos = ps, vel = vs, rng = r1\<rparr> \<lparr>pos = ps, vel = vs, rng = r2\<rparr>"
    by (simp add: same_cars_def)
  from simulate_rel[OF this, of L N vmax T]
  have a: "map_sum id (\<lambda>(rows, s). (rows, pos s, vel s))
           (simulate L N vmax 0 T \<lparr>pos = ps, vel = vs, rng = r1\<rparr>) =
         map_sum id (\<lambda>(rows, s). (rows, pos s, vel s))
           (simulate L N vmax 0 T \<lparr>pos = ps, vel = vs, rng = r2\<rparr>)"
    by (cases "simulate L N vmax 0 T \<lparr>pos = ps, vel = vs, rng = r1\<rparr>";
        cases "simulate L N vmax 0 T \<lparr>pos = ps, vel = vs, rng = r2\<rparr>")
       (auto simp: same_cars_def)
  from assms(1) have n: "\<not> shd r1 < 0" "\<not> shd (stl r1) < 0"
    by (simp_all add: unit_draws_shd unit_draws_stl)
  have b: "map_sum id (\<lambda>s. (pos s, vel s))
           (ns_update 10 2 2 0 \<lparr>pos = [0, 5], vel = [0, 0], rng = r1\<rparr>) = Inr ([1, 6], [1, 1])"
    using n by (simp add: ns_eval)
  have c: "gap_ahead 10 2 0 [0, 5] = 5" by (simp add: gap_ahead_def)
  from a b c show ?thesis by simp
qed

theorem zero_probability_ignores_draws_witness:
  "unit_draws (sconst (1 / 2)) \<and> unit_draws (sconst (1 / 4)) \<and>
   map_sum id (\<lambda>(rows, s). (rows, pos s, vel s))
     (simulate 10 2 2 0 3 \<lparr>pos = [0, 5], vel = [0, 0], rng = sconst (1 / 2)\<rparr>) =
   map_sum id (\<lambda>(rows, s). (rows, pos s, vel s))
     (simulate 10 2 2 0 3 \<lparr>pos = [0, 5], vel = [0, 0], rng = sconst (1 / 4)\<rparr>) \<and>
   map_sum id (\<lambda>s. (pos s, vel s))
     (ns_update 10 2 2 0 \<lparr>pos = [0, 5], vel = [0, 0], rng = sconst (1 / 2)\<rparr>) = Inr ([1, 6], [1, 1])"
proof -
  have u: "unit_draws (sconst (1 / 2))" "unit_draws (sconst (1 / 4))"
    by (simp_all add: unit_draws_def)
  from u zero_probability_ignores_draws[OF u, of 10 2 2 3 "[0, 5]" "[0, 0]"] show ?thesis by simp
qed

section \<open>The notebook in cell order\<close>







section \<open>The neighbour list under the fixed boundary\<close>

lemma fold_upd_other:
  assumes "\<forall>x\<in>set xs. key x \<noteq> k"
  shows "fold (\<lambda>x d. d(key x \<mapsto> val x)) xs d k = d k"
  using assms
proof (induction xs arbitrary: d)
  case Nil
  then show ?case by simp
next
  case (Cons y ys)
  then have "key y \<noteq> k" and rest: "\<forall>x\<in>set ys. key x \<noteq> k" by simp_all
  have "fold (\<lambda>x d. d(key x \<mapsto> val x)) (y # ys) d k =
        fold (\<lambda>x d. d(key x \<mapsto> val x)) ys (d(key y \<mapsto> val y)) k"
    by simp
  also have "\<dots> = (d(key y \<mapsto> val y)) k" by (rule Cons.IH[OF rest])
  also have "\<dots> = d k" using \<open>key y \<noteq> k\<close> by auto
  finally show ?case .
qed

lemma fold_upd_hit:
  assumes "\<exists>x\<in>set xs. key x = k" "\<forall>y\<in>set xs. key y = k \<longrightarrow> val y = v"
  shows "fold (\<lambda>x d. d(key x \<mapsto> val x)) xs d k = Some v"
  using assms
proof (induction xs arbitrary: d)
  case Nil
  then show ?case by simp
next
  case (Cons y ys)
  have step: "fold (\<lambda>x d. d(key x \<mapsto> val x)) (y # ys) d k =
        fold (\<lambda>x d. d(key x \<mapsto> val x)) ys (d(key y \<mapsto> val y)) k"
    by simp
  show ?case
  proof (cases "\<exists>x\<in>set ys. key x = k")
    case True
    from Cons.prems(2) have "\<forall>y\<in>set ys. key y = k \<longrightarrow> val y = v" by simp
    from Cons.IH[OF True this] step show ?thesis by (simp only:)
  next
    case False
    with Cons.prems have y: "key y = k" "val y = v" by auto
    from False have "\<forall>x\<in>set ys. key x \<noteq> k" by simp
    from fold_upd_other[OF this, of val "d(key y \<mapsto> val y)"]
    have "fold (\<lambda>x d. d(key x \<mapsto> val x)) ys (d(key y \<mapsto> val y)) k = (d(key y \<mapsto> val y)) k" .
    also have "\<dots> = Some v" using y by simp
    finally show ?thesis using step by (simp only:)
  qed
qed

lemma fold_upd_line:
  assumes inj: "\<And>x y. key x = key y \<Longrightarrow> x = y"
  shows "fold (\<lambda>x d. d(key x \<mapsto> val x)) [lo..hi] d (key (a::int)) =
     (if lo \<le> a \<and> a \<le> hi then Some (val a) else d (key a))"
proof (cases "lo \<le> a \<and> a \<le> hi")
  case True
  then have "a \<in> set [lo..hi]" by simp
  then have e: "\<exists>x\<in>set [lo..hi]. key x = key a" by blast
  have "\<forall>y\<in>set [lo..hi]. key y = key a \<longrightarrow> val y = val a"
    using inj by blast
  from fold_upd_hit[OF e this] True show ?thesis by simp
next
  case False
  then have "a \<notin> set [lo..hi]" by simp
  with inj have "\<forall>x\<in>set [lo..hi]. key x \<noteq> key a" by blast
  from fold_upd_other[OF this, of val d] False show ?thesis by auto
qed

lemma fold_fold_upd:
  "fold (\<lambda>i. fold (\<lambda>j d. d((i, j) \<mapsto> val i j)) [lo..hi]) [lo'..hi'] d (a, b) =
     (if lo' \<le> a \<and> a \<le> hi' \<and> lo \<le> b \<and> b \<le> hi then Some (val a b) else d (a, b))"
  for a b :: int
proof -
  let ?row = "\<lambda>i. fold (\<lambda>j d. d((i, j) \<mapsto> val i j)) [lo..hi]"
  have row: "?row i d (a, b) =
      (if i = a \<and> lo \<le> b \<and> b \<le> hi then Some (val a b) else d (a, b))" for i d
  proof (cases "i = a")
    case True
    have "\<And>x y. (a, x) = (a, y) \<Longrightarrow> x = y" by simp
    from fold_upd_line[of "Pair a" "val a" lo hi d b, OF this] True show ?thesis by simp
  next
    case False
    then have "\<forall>x\<in>set [lo..hi]. (i, x) \<noteq> (a, b)" by simp
    from fold_upd_other[OF this, of "val i" d] False show ?thesis by simp
  qed
  have "fold ?row js d (a, b) =
     (if a \<in> set js \<and> lo \<le> b \<and> b \<le> hi then Some (val a b) else d (a, b))" for js
  proof (induction js arbitrary: d)
    case Nil
    then show ?case by simp
  next
    case (Cons i js)
    have "fold ?row (i # js) d (a, b) = fold ?row js (?row i d) (a, b)" by simp
    also have "\<dots> = (if a \<in> set js \<and> lo \<le> b \<and> b \<le> hi then Some (val a b)
                      else ?row i d (a, b))"
      by (rule Cons.IH)
    also have "\<dots> = (if a \<in> set (i # js) \<and> lo \<le> b \<and> b \<le> hi then Some (val a b) else d (a, b))"
      unfolding row by auto
    finally show ?case .
  qed
  from this[of "[lo'..hi']"] show ?thesis by simp
qed


lemma nbrs_interior_at:
  "nbrs_interior N d (i, j) =
     (if 1 \<le> i \<and> i \<le> N - 2 \<and> 1 \<le> j \<and> j \<le> N - 2
      then Some [(i, j + 1), (i + 1, j + 1), (i + 1, j), (i + 1, j - 1),
                 (i, j - 1), (i - 1, j - 1), (i - 1, j), (i - 1, j + 1)]
      else d (i, j))"
  unfolding nbrs_interior_def by (rule fold_fold_upd)

lemma nbrs_bottom_at:
  "nbrs_bottom N d (i, j) =
     (if j = 0 \<and> 1 \<le> i \<and> i \<le> N - 2
      then Some [(i - 1, 0), (i - 1, 1), (i, 1), (i + 1, 1), (i + 1, 0)]
      else d (i, j))"
proof (cases "j = 0")
  case True
  have "\<And>x y :: int. (x, 0::int) = (y, 0) \<Longrightarrow> x = y" by simp
  from fold_upd_line[of "\<lambda>i. (i, 0::int)", OF this, of _ 1 "N - 2" d i] True
  show ?thesis unfolding nbrs_bottom_def by simp
next
  case False
  then have "\<forall>x\<in>set [1..N - 2]. (x, 0) \<noteq> (i, j)" by simp
  from fold_upd_other[OF this] False show ?thesis unfolding nbrs_bottom_def by simp
qed

lemma nbrs_right_at:
  "nbrs_right N d (i, j) =
     (if i = N - 1 \<and> 1 \<le> j \<and> j \<le> N - 2
      then Some [(N - 1, j - 1), (N - 2, j - 1), (N - 2, j), (N - 2, j + 1), (N - 1, j + 1)]
      else d (i, j))"
proof (cases "i = N - 1")
  case True
  have "\<And>x y :: int. (N - 1, x) = (N - 1, y) \<Longrightarrow> x = y" by simp
  from fold_upd_line[of "Pair (N - 1)", OF this, of _ 1 "N - 2" d j] True
  show ?thesis unfolding nbrs_right_def by simp
next
  case False
  then have "\<forall>x\<in>set [1..N - 2]. (N - 1, x) \<noteq> (i, j)" by simp
  from fold_upd_other[OF this] False show ?thesis unfolding nbrs_right_def by simp
qed

lemma nbrs_top_at:
  "nbrs_top N d (i, j) =
     (if j = N - 1 \<and> 1 \<le> i \<and> i \<le> N - 2
      then Some [(i + 1, N - 1), (i + 1, N - 2), (i, N - 2), (i - 1, N - 2), (i - 1, N - 1)]
      else d (i, j))"
proof (cases "j = N - 1")
  case True
  have "\<And>x y :: int. (x, N - 1) = (y, N - 1) \<Longrightarrow> x = y" by simp
  from fold_upd_line[of "\<lambda>i. (i, N - 1)", OF this, of _ 1 "N - 2" d i] True
  show ?thesis unfolding nbrs_top_def by simp
next
  case False
  then have "\<forall>x\<in>set [1..N - 2]. (x, N - 1) \<noteq> (i, j)" by simp
  from fold_upd_other[OF this] False show ?thesis unfolding nbrs_top_def by simp
qed

lemma nbrs_left_at:
  "nbrs_left N d (i, j) =
     (if i = 0 \<and> 1 \<le> j \<and> j \<le> N - 2
      then Some [(0, j + 1), (1, j + 1), (1, j), (1, j - 1), (0, j - 1)]
      else d (i, j))"
proof (cases "i = 0")
  case True
  have "\<And>x y :: int. (0::int, x) = (0, y) \<Longrightarrow> x = y" by simp
  from fold_upd_line[of "Pair (0::int)", OF this, of _ 1 "N - 2" d j] True
  show ?thesis unfolding nbrs_left_def by simp
next
  case False
  then have "\<forall>x\<in>set [1..N - 2]. (0, x) \<noteq> (i, j)" by simp
  from fold_upd_other[OF this] False show ?thesis unfolding nbrs_left_def by simp
qed

lemmas nbrs_at =
  nbrs_def nbrs_interior_at nbrs_bottom_at nbrs_right_at nbrs_top_at nbrs_left_at nbrs_corners_def

lemma entry_one:
  assumes "N = 1" "i = 0" "j = 0"
  shows "nbrs N (i, j) = Some [(- 1, 0), (- 1, 1), (0, 1)]"
  using assms by (simp add: nbrs_at)

lemma entry_inner:
  assumes "1 \<le> i" "i \<le> N - 2" "1 \<le> j" "j \<le> N - 2"
  shows "nbrs N (i, j) = Some [(i, j + 1), (i + 1, j + 1), (i + 1, j), (i + 1, j - 1), (i, j - 1), (i - 1, j - 1), (i - 1, j), (i - 1, j + 1)]"
  using assms by (simp add: nbrs_at)

lemma entry_left:
  assumes "i = 0" "1 \<le> j" "j \<le> N - 2"
  shows "nbrs N (i, j) = Some [(0, j + 1), (1, j + 1), (1, j), (1, j - 1), (0, j - 1)]"
  using assms by (simp add: nbrs_at)

lemma entry_top:
  assumes "j = N - 1" "1 \<le> i" "i \<le> N - 2"
  shows "nbrs N (i, j) = Some [(i + 1, N - 1), (i + 1, N - 2), (i, N - 2), (i - 1, N - 2), (i - 1, N - 1)]"
  using assms by (simp add: nbrs_at)

lemma entry_right:
  assumes "i = N - 1" "1 \<le> j" "j \<le> N - 2"
  shows "nbrs N (i, j) = Some [(N - 1, j - 1), (N - 2, j - 1), (N - 2, j), (N - 2, j + 1), (N - 1, j + 1)]"
  using assms by (simp add: nbrs_at)

lemma entry_bottom:
  assumes "j = 0" "1 \<le> i" "i \<le> N - 2"
  shows "nbrs N (i, j) = Some [(i - 1, 0), (i - 1, 1), (i, 1), (i + 1, 1), (i + 1, 0)]"
  using assms by (simp add: nbrs_at)

lemma entry_c00:
  assumes "2 \<le> N" "i = 0" "j = 0"
  shows "nbrs N (i, j) = Some [(0, 1), (1, 1), (1, 0)]"
  using assms by (simp add: nbrs_at)

lemma entry_c0N:
  assumes "2 \<le> N" "i = 0" "j = N - 1"
  shows "nbrs N (i, j) = Some [(1, N - 1), (1, N - 2), (0, N - 2)]"
  using assms by (simp add: nbrs_at)

lemma entry_cNN:
  assumes "2 \<le> N" "i = N - 1" "j = N - 1"
  shows "nbrs N (i, j) = Some [(N - 1, N - 2), (N - 2, N - 2), (N - 2, N - 1)]"
  using assms by (simp add: nbrs_at)

lemma entry_cN0:
  assumes "2 \<le> N" "i = N - 1" "j = 0"
  shows "nbrs N (i, j) = Some [(N - 2, 0), (N - 2, 1), (N - 1, 1)]"
  using assms by (simp add: nbrs_at)

lemma count_one:
  assumes "N = 1" "i = 0" "j = 0"
  shows "\<exists>ns. nbrs N (i, j) = Some ns \<and> distinct ns \<and>
           length ns = (if is_corner N (i, j) then 3 else if is_edge N (i, j) then 5 else 8) \<and>
           (2 \<le> N \<longrightarrow> list_all (\<lambda>(k, l). 0 \<le> k \<and> k < N \<and> 0 \<le> l \<and> l < N \<and>
                                  (k, l) \<noteq> (i, j) \<and> \<bar>k - i\<bar> \<le> 1 \<and> \<bar>l - j\<bar> \<le> 1) ns)"
  using assms entry_one[OF assms] by (simp add: is_corner_def is_edge_def)

lemma count_inner:
  assumes "1 \<le> i" "i \<le> N - 2" "1 \<le> j" "j \<le> N - 2"
  shows "\<exists>ns. nbrs N (i, j) = Some ns \<and> distinct ns \<and>
           length ns = (if is_corner N (i, j) then 3 else if is_edge N (i, j) then 5 else 8) \<and>
           (2 \<le> N \<longrightarrow> list_all (\<lambda>(k, l). 0 \<le> k \<and> k < N \<and> 0 \<le> l \<and> l < N \<and>
                                  (k, l) \<noteq> (i, j) \<and> \<bar>k - i\<bar> \<le> 1 \<and> \<bar>l - j\<bar> \<le> 1) ns)"
  using assms entry_inner[OF assms] by (simp add: is_corner_def is_edge_def)

lemma count_left:
  assumes "i = 0" "1 \<le> j" "j \<le> N - 2"
  shows "\<exists>ns. nbrs N (i, j) = Some ns \<and> distinct ns \<and>
           length ns = (if is_corner N (i, j) then 3 else if is_edge N (i, j) then 5 else 8) \<and>
           (2 \<le> N \<longrightarrow> list_all (\<lambda>(k, l). 0 \<le> k \<and> k < N \<and> 0 \<le> l \<and> l < N \<and>
                                  (k, l) \<noteq> (i, j) \<and> \<bar>k - i\<bar> \<le> 1 \<and> \<bar>l - j\<bar> \<le> 1) ns)"
  using assms entry_left[OF assms] by (simp add: is_corner_def is_edge_def)

lemma count_top:
  assumes "j = N - 1" "1 \<le> i" "i \<le> N - 2"
  shows "\<exists>ns. nbrs N (i, j) = Some ns \<and> distinct ns \<and>
           length ns = (if is_corner N (i, j) then 3 else if is_edge N (i, j) then 5 else 8) \<and>
           (2 \<le> N \<longrightarrow> list_all (\<lambda>(k, l). 0 \<le> k \<and> k < N \<and> 0 \<le> l \<and> l < N \<and>
                                  (k, l) \<noteq> (i, j) \<and> \<bar>k - i\<bar> \<le> 1 \<and> \<bar>l - j\<bar> \<le> 1) ns)"
  using assms entry_top[OF assms] by (simp add: is_corner_def is_edge_def)

lemma count_right:
  assumes "i = N - 1" "1 \<le> j" "j \<le> N - 2"
  shows "\<exists>ns. nbrs N (i, j) = Some ns \<and> distinct ns \<and>
           length ns = (if is_corner N (i, j) then 3 else if is_edge N (i, j) then 5 else 8) \<and>
           (2 \<le> N \<longrightarrow> list_all (\<lambda>(k, l). 0 \<le> k \<and> k < N \<and> 0 \<le> l \<and> l < N \<and>
                                  (k, l) \<noteq> (i, j) \<and> \<bar>k - i\<bar> \<le> 1 \<and> \<bar>l - j\<bar> \<le> 1) ns)"
  using assms entry_right[OF assms] by (simp add: is_corner_def is_edge_def)

lemma count_bottom:
  assumes "j = 0" "1 \<le> i" "i \<le> N - 2"
  shows "\<exists>ns. nbrs N (i, j) = Some ns \<and> distinct ns \<and>
           length ns = (if is_corner N (i, j) then 3 else if is_edge N (i, j) then 5 else 8) \<and>
           (2 \<le> N \<longrightarrow> list_all (\<lambda>(k, l). 0 \<le> k \<and> k < N \<and> 0 \<le> l \<and> l < N \<and>
                                  (k, l) \<noteq> (i, j) \<and> \<bar>k - i\<bar> \<le> 1 \<and> \<bar>l - j\<bar> \<le> 1) ns)"
  using assms entry_bottom[OF assms] by (simp add: is_corner_def is_edge_def)

lemma count_c00:
  assumes "2 \<le> N" "i = 0" "j = 0"
  shows "\<exists>ns. nbrs N (i, j) = Some ns \<and> distinct ns \<and>
           length ns = (if is_corner N (i, j) then 3 else if is_edge N (i, j) then 5 else 8) \<and>
           (2 \<le> N \<longrightarrow> list_all (\<lambda>(k, l). 0 \<le> k \<and> k < N \<and> 0 \<le> l \<and> l < N \<and>
                                  (k, l) \<noteq> (i, j) \<and> \<bar>k - i\<bar> \<le> 1 \<and> \<bar>l - j\<bar> \<le> 1) ns)"
  using assms entry_c00[OF assms] by (simp add: is_corner_def is_edge_def)

lemma count_c0N:
  assumes "2 \<le> N" "i = 0" "j = N - 1"
  shows "\<exists>ns. nbrs N (i, j) = Some ns \<and> distinct ns \<and>
           length ns = (if is_corner N (i, j) then 3 else if is_edge N (i, j) then 5 else 8) \<and>
           (2 \<le> N \<longrightarrow> list_all (\<lambda>(k, l). 0 \<le> k \<and> k < N \<and> 0 \<le> l \<and> l < N \<and>
                                  (k, l) \<noteq> (i, j) \<and> \<bar>k - i\<bar> \<le> 1 \<and> \<bar>l - j\<bar> \<le> 1) ns)"
  using assms entry_c0N[OF assms] by (simp add: is_corner_def is_edge_def)

lemma count_cNN:
  assumes "2 \<le> N" "i = N - 1" "j = N - 1"
  shows "\<exists>ns. nbrs N (i, j) = Some ns \<and> distinct ns \<and>
           length ns = (if is_corner N (i, j) then 3 else if is_edge N (i, j) then 5 else 8) \<and>
           (2 \<le> N \<longrightarrow> list_all (\<lambda>(k, l). 0 \<le> k \<and> k < N \<and> 0 \<le> l \<and> l < N \<and>
                                  (k, l) \<noteq> (i, j) \<and> \<bar>k - i\<bar> \<le> 1 \<and> \<bar>l - j\<bar> \<le> 1) ns)"
  using assms entry_cNN[OF assms] by (simp add: is_corner_def is_edge_def)

lemma count_cN0:
  assumes "2 \<le> N" "i = N - 1" "j = 0"
  shows "\<exists>ns. nbrs N (i, j) = Some ns \<and> distinct ns \<and>
           length ns = (if is_corner N (i, j) then 3 else if is_edge N (i, j) then 5 else 8) \<and>
           (2 \<le> N \<longrightarrow> list_all (\<lambda>(k, l). 0 \<le> k \<and> k < N \<and> 0 \<le> l \<and> l < N \<and>
                                  (k, l) \<noteq> (i, j) \<and> \<bar>k - i\<bar> \<le> 1 \<and> \<bar>l - j\<bar> \<le> 1) ns)"
  using assms entry_cN0[OF assms] by (simp add: is_corner_def is_edge_def)

lemma three_way:
  fixes i :: int
  assumes "0 \<le> i" "i < N" "2 \<le> N"
  shows "i = 0 \<or> i = N - 1 \<or> (1 \<le> i \<and> i \<le> N - 2)"
  using assms by linarith

lemma nbrs_entry:
  assumes N: "1 \<le> N" and i: "0 \<le> i" "i < N" and j: "0 \<le> j" "j < N"
  shows "\<exists>ns. nbrs N (i, j) = Some ns \<and> distinct ns \<and>
           length ns = (if is_corner N (i, j) then 3 else if is_edge N (i, j) then 5 else 8) \<and>
           (2 \<le> N \<longrightarrow> list_all (\<lambda>(k, l). 0 \<le> k \<and> k < N \<and> 0 \<le> l \<and> l < N \<and>
                                  (k, l) \<noteq> (i, j) \<and> \<bar>k - i\<bar> \<le> 1 \<and> \<bar>l - j\<bar> \<le> 1) ns)"
proof (cases "N = 1")
  case True
  with i j have "i = 0" "j = 0" by simp_all
  with True show ?thesis by (rule count_one)
next
  case False
  with N have N2: "2 \<le> N" by simp
  from three_way[OF i N2] show ?thesis
  proof (elim disjE conjE)
    assume i0: "i = 0"
    from three_way[OF j N2] show ?thesis
    proof (elim disjE conjE)
      assume "j = 0"
      with N2 i0 show ?thesis by (rule count_c00)
    next
      assume "j = N - 1"
      with N2 i0 show ?thesis by (rule count_c0N)
    next
      assume "1 \<le> j" "j \<le> N - 2"
      with i0 show ?thesis by (rule count_left)
    qed
  next
    assume iN: "i = N - 1"
    from three_way[OF j N2] show ?thesis
    proof (elim disjE conjE)
      assume "j = 0"
      with N2 iN show ?thesis by (rule count_cN0)
    next
      assume "j = N - 1"
      with N2 iN show ?thesis by (rule count_cNN)
    next
      assume "1 \<le> j" "j \<le> N - 2"
      with iN show ?thesis by (rule count_right)
    qed
  next
    assume im: "1 \<le> i" "i \<le> N - 2"
    from three_way[OF j N2] show ?thesis
    proof (elim disjE conjE)
      assume "j = 0"
      from this im show ?thesis by (rule count_bottom)
    next
      assume "j = N - 1"
      from this im show ?thesis by (rule count_top)
    next
      assume "1 \<le> j" "j \<le> N - 2"
      with im show ?thesis by (rule count_inner)
    qed
  qed
qed

text \<open>
  C5. For every \<open>N \<ge> 1\<close> the neighbour list built by the notebook has an entry for every
  cell of the \<open>N \<times> N\<close> grid, and the entry lists pairwise distinct coordinates: 3 for
  each corner cell, 5 for each edge cell that is not a corner, 8 for each interior cell.
  From \<open>N = 2\<close> on, every listed coordinate is a cell of the grid other than the cell
  itself and at most one step away in each direction.
\<close>

theorem nbrs_fixed_boundary_counts:
  assumes N: "1 \<le> N" and i: "0 \<le> i" "i < N" and j: "0 \<le> j" "j < N"
  shows "\<exists>ns. nbrs N (i, j) = Some ns \<and> distinct ns \<and>
           length ns = (if is_corner N (i, j) then 3 else if is_edge N (i, j) then 5 else 8) \<and>
           (2 \<le> N \<longrightarrow> list_all (\<lambda>(k, l). 0 \<le> k \<and> k < N \<and> 0 \<le> l \<and> l < N \<and>
                                  (k, l) \<noteq> (i, j) \<and> \<bar>k - i\<bar> \<le> 1 \<and> \<bar>l - j\<bar> \<le> 1) ns)"
  using assms by (rule nbrs_entry)

theorem nbrs_fixed_boundary_counts_witness:
  "(\<exists>ns. nbrs 20 (0, 0) = Some ns \<and> distinct ns \<and> length ns = 3) \<and>
   (\<exists>ns. nbrs 20 (0, 5) = Some ns \<and> distinct ns \<and> length ns = 5) \<and>
   (\<exists>ns. nbrs 20 (7, 7) = Some ns \<and> distinct ns \<and> length ns = 8)"
proof -
  have "\<exists>ns. nbrs 20 (0, 0) = Some ns \<and> distinct ns \<and> length ns = 3"
    using nbrs_fixed_boundary_counts[of 20 0 0] by (auto simp: is_corner_def)
  moreover have "\<exists>ns. nbrs 20 (0, 5) = Some ns \<and> distinct ns \<and> length ns = 5"
    using nbrs_fixed_boundary_counts[of 20 0 5] by (auto simp: is_corner_def is_edge_def)
  moreover have "\<exists>ns. nbrs 20 (7, 7) = Some ns \<and> distinct ns \<and> length ns = 8"
    using nbrs_fixed_boundary_counts[of 20 7 7] by (auto simp: is_corner_def is_edge_def)
  ultimately show ?thesis by blast
qed

section \<open>One turn of the Game of Life\<close>

lemma grid_okD:
  assumes "grid_ok N b"
  shows "length b = N" "\<And>i. i < N \<Longrightarrow> length (b ! i) = N"
    "\<And>i j. i < N \<Longrightarrow> j < N \<Longrightarrow> b ! i ! j = 0 \<or> b ! i ! j = 1"
  using assms by (auto simp: grid_ok_def list_all_length)

lemma board_get_in_grid:
  assumes g: "grid_ok N b" and c: "in_grid N (k, l)"
  shows "board_get b k l = Inr (b ! nat k ! nat l)"
proof -
  from c have k: "0 \<le> k" "k < int N" and l: "0 \<le> l" "l < int N"
    by (simp_all add: in_grid_def)
  from k have "nat k < N" by simp
  with grid_okD[OF g] have "length b = N" "length (b ! nat k) = N" by simp_all
  with k l show ?thesis by (simp add: board_get_def np_index_ok)
qed

lemma cell_value:
  assumes g: "grid_ok N b" and c: "in_grid N c"
  shows "b ! nat (fst c) ! nat (snd c) = (if alive b c then 1 else 0)"
proof -
  from c have "nat (fst c) < N" "nat (snd c) < N" by (auto simp: in_grid_def)
  from grid_okD(3)[OF g this] show ?thesis by (auto simp: alive_def)
qed

lemma count_nbrs_ok:
  assumes g: "grid_ok N b" and ns: "list_all (in_grid N) ns"
  shows "count_nbrs b ns acc = Inr (acc + int (alive_count b ns))"
  using ns
proof (induction ns arbitrary: acc)
  case Nil
  then show ?case by (simp add: alive_count_def)
next
  case (Cons c ns)
  obtain k l where c: "c = (k, l)" by (cases c)
  from Cons.prems c have in_g: "in_grid N (k, l)" and rest: "list_all (in_grid N) ns" by simp_all
  from cell_value[OF g in_g] have v: "b ! nat k ! nat l = (if alive b (k, l) then 1 else 0)"
    by simp
  have "count_nbrs b (c # ns) acc = count_nbrs b ns (acc + b ! nat k ! nat l)"
    by (simp add: c board_get_in_grid[OF g in_g])
  also have "\<dots> = Inr (acc + b ! nat k ! nat l + int (alive_count b ns))"
    by (rule Cons.IH[OF rest])
  also have "acc + b ! nat k ! nat l + int (alive_count b ns) = acc + int (alive_count b (c # ns))"
    by (simp add: v c alive_count_def)
  finally show ?case .
qed

lemma table_okD:
  assumes "table_ok N tbl" "i < N" "j < N"
  shows "tbl (int i, int j) = Some (table_at tbl i j)" "list_all (in_grid N) (table_at tbl i j)"
  using assms by (auto simp: table_ok_def table_at_def list_all_length split: option.splits)

lemma life_cell_ok:
  assumes g: "grid_ok N b" and t: "table_ok N tbl" and i: "i < N" and j: "j < N"
  shows "life_cell tbl b i j = Inr (next_cell tbl b i j)"
proof -
  note T = table_okD[OF t i j]
  from i j have c: "in_grid N (int i, int j)" by (simp add: in_grid_def)
  from cell_value[OF g c] have v: "b ! i ! j = (if alive b (int i, int j) then 1 else 0)"
    by simp
  have "life_cell tbl b i j =
      Inr (if b ! i ! j = 1
           then (if int (alive_count b (table_at tbl i j)) < 2 \<or> int (alive_count b (table_at tbl i j)) > 3 then 0 else 1)
           else (if int (alive_count b (table_at tbl i j)) = 3 then 1 else 0))"
    using board_get_in_grid[OF g c]
    by (simp add: life_cell_def dict_get_def T(1) count_nbrs_ok[OF g T(2)])
  also have "\<dots> = Inr (next_cell tbl b i j)"
    by (auto simp: v next_cell_def next_alive_def)
  finally show ?thesis .
qed

lemma fold_set_nth:
  assumes "k < length row"
  shows "fold (\<lambda>j r. r[j := f j]) js row ! k = (if k \<in> set js then f k else row ! k)"
  using assms by (induction js arbitrary: row) (auto simp: nth_list_update)

lemma fold_set_length [simp]: "length (fold (\<lambda>j r. r[j := f j]) js row) = length row"
  by (induction js arbitrary: row) simp_all

lemma fold_set_all:
  assumes "length row = N"
  shows "fold (\<lambda>j r. r[j := f j]) [0..<N] row = map f [0..<N]"
  using assms by (intro nth_equalityI) (simp_all add: fold_set_nth)

lemma board_set_ok:
  assumes "i < length nb" "j < length (nb ! i)"
  shows "board_set nb (int i) (int j) v = Inr (nb[i := (nb ! i)[j := v]])"
  using assms by (simp add: board_set_def np_index_ok)

lemma life_row_ok:
  assumes "i < length nb" "\<forall>j\<in>set js. j < length (nb ! i) \<and> life_cell tbl b i j = Inr (f j)"
  shows "life_row tbl b i js nb = Inr (nb[i := fold (\<lambda>j r. r[j := f j]) js (nb ! i)])"
  using assms
proof (induction js arbitrary: nb)
  case Nil
  then show ?case by simp
next
  case (Cons j js)
  let ?nb = "nb[i := (nb ! i)[j := f j]]"
  from Cons.prems have j: "j < length (nb ! i)" "life_cell tbl b i j = Inr (f j)" by simp_all
  from Cons.prems(1) have nbi: "?nb ! i = (nb ! i)[j := f j]" by simp
  have "life_row tbl b i (j # js) nb = life_row tbl b i js ?nb"
    using j Cons.prems(1) by (simp add: board_set_ok)
  also have "\<dots> = Inr (?nb[i := fold (\<lambda>j r. r[j := f j]) js (?nb ! i)])"
    using Cons.prems by (intro Cons.IH) (simp_all add: nbi)
  also have "?nb[i := fold (\<lambda>j r. r[j := f j]) js (?nb ! i)] =
             nb[i := fold (\<lambda>j r. r[j := f j]) (j # js) (nb ! i)]"
    by (simp add: nbi)
  finally show ?case .
qed

lemma life_rows_ok:
  assumes g: "grid_ok N b" and t: "table_ok N tbl"
    and nb: "length nb = N" "\<forall>r\<in>set nb. length r = N" and "\<forall>i\<in>set is. i < N"
  shows "life_rows N tbl b is nb = Inr (fold (\<lambda>i r. r[i := map (next_cell tbl b i) [0..<N]]) is nb)"
  using nb assms(5)
proof (induction "is" arbitrary: nb)
  case Nil
  then show ?case by simp
next
  case (Cons i "is")
  from Cons.prems have i: "i < N" by simp
  with Cons.prems have len: "i < length nb" "length (nb ! i) = N" by simp_all
  have "\<forall>j\<in>set [0..<N]. j < length (nb ! i) \<and> life_cell tbl b i j = Inr (next_cell tbl b i j)"
    using len life_cell_ok[OF g t i] by simp
  from life_row_ok[OF len(1) this]
  have row: "life_row tbl b i [0..<N] nb = Inr (nb[i := map (next_cell tbl b i) [0..<N]])"
    by (simp add: fold_set_all[OF len(2)])
  let ?nb = "nb[i := map (next_cell tbl b i) [0..<N]]"
  have "\<forall>r\<in>set ?nb. length r = N"
    using Cons.prems(2) set_update_subset_insert[of nb i "map (next_cell tbl b i) [0..<N]"]
    by auto
  with Cons.prems have "life_rows N tbl b is ?nb =
      Inr (fold (\<lambda>i r. r[i := map (next_cell tbl b i) [0..<N]]) is ?nb)"
    by (intro Cons.IH) simp_all
  with row show ?case by simp
qed

text \<open>
  C2. For every \<open>N \<times> N\<close> board of dead and live cells and every neighbour table that
  has, for each cell, an entry of cells of the grid, one turn of the notebook raises
  nothing and returns the board \<open>spec_life\<close>: each cell of the new board is computed
  from the current board alone (its own state and the number of live cells among its
  listed neighbours), a live cell with fewer than 2 or more than 3 live neighbours dies,
  a live cell with 2 or 3 stays alive, a dead cell with exactly 3 comes alive, every other
  dead cell stays dead. The new board is again an \<open>N \<times> N\<close> board of dead and live cells.
\<close>

theorem life_step_is_synchronous_rule:
  assumes g: "grid_ok N b" and t: "table_ok N tbl"
  shows "life_step N tbl b = Inr (spec_life N tbl b) \<and> grid_ok N (spec_life N tbl b)"
proof -
  let ?z = "replicate N (replicate N (0::int))"
  have "life_step N tbl b = Inr (fold (\<lambda>i r. r[i := map (next_cell tbl b i) [0..<N]]) [0..<N] ?z)"
    unfolding life_step_def using g t by (intro life_rows_ok) simp_all
  also have "fold (\<lambda>i r. r[i := map (next_cell tbl b i) [0..<N]]) [0..<N] ?z =
             map (\<lambda>i. map (next_cell tbl b i) [0..<N]) [0..<N]"
    by (rule fold_set_all) simp
  also have "\<dots> = spec_life N tbl b"
    by (simp add: spec_life_def)
  finally have "life_step N tbl b = Inr (spec_life N tbl b)" .
  moreover have "grid_ok N (spec_life N tbl b)"
    by (simp add: grid_ok_def spec_life_def list_all_length next_cell_def)
  ultimately show ?thesis ..
qed

theorem life_step_is_synchronous_rule_witness:
  "grid_ok 3 [ [0, 1, 0], [0, 1, 0], [0, 1, 0] ] \<and> table_ok 3 (nbrs 3) \<and>
   life_step 3 (nbrs 3) [ [0, 1, 0], [0, 1, 0], [0, 1, 0] ] = Inr [ [0, 0, 0], [1, 1, 1], [0, 0, 0] ]"
proof -
  have u: "[0..<3] = [0, 1, 2]" by (simp add: upt_rec)
  have g: "grid_ok 3 [ [0, 1, 0], [0, 1, 0], [0, 1, 0] ]"
    by (simp add: grid_ok_def)
  have t: "table_ok 3 (nbrs 3)"
    by (simp add: table_ok_def u nbrs_at in_grid_def)
  have "spec_life 3 (nbrs 3) [ [0, 1, 0], [0, 1, 0], [0, 1, 0] ] = [ [0, 0, 0], [1, 1, 1], [0, 0, 0] ]"
    by (simp add: spec_life_def u next_cell_def next_alive_def alive_def alive_count_def
        table_at_def nbrs_at)
  with g t life_step_is_synchronous_rule[OF g t] show ?thesis by simp
qed

text \<open>
  The notebook's own table satisfies the hypothesis on the table from \<open>N = 2\<close> on. For
  a single cell it lists coordinates outside the grid, and the turn raises.
\<close>

lemma nbrs_table_ok:
  assumes "2 \<le> N"
  shows "table_ok N (nbrs (int N))"
proof -
  have "case nbrs (int N) (int i, int j) of None \<Rightarrow> False | Some ns \<Rightarrow> list_all (in_grid N) ns"
    if "i < N" "j < N" for i j
  proof -
    from that assms nbrs_entry[of "int N" "int i" "int j"]
    obtain ns where ns: "nbrs (int N) (int i, int j) = Some ns"
      "list_all (\<lambda>(k, l). 0 \<le> k \<and> k < int N \<and> 0 \<le> l \<and> l < int N \<and>
                 (k, l) \<noteq> (int i, int j) \<and> \<bar>k - int i\<bar> \<le> 1 \<and> \<bar>l - int j\<bar> \<le> 1) ns"
      by auto
    from ns(2) have "list_all (in_grid N) ns"
      by (auto simp: list_all_iff in_grid_def)
    with ns(1) show ?thesis by simp
  qed
  then show ?thesis by (simp add: table_ok_def list_all_length)
qed

lemma life_step_fixed_boundary:
  assumes "2 \<le> N" "grid_ok N b"
  shows "life_step N (nbrs (int N)) b = Inr (spec_life N (nbrs (int N)) b)"
proof -
  have "life_rows N (nbrs (int N)) b [0..<N] (replicate N (replicate N 0)) =
        Inr (fold (\<lambda>i r. r[i := map (next_cell (nbrs (int N)) b i) [0..<N]]) [0..<N]
               (replicate N (replicate N 0)))"
    using assms(2) nbrs_table_ok[OF assms(1)] by (intro life_rows_ok) simp_all
  also have "fold (\<lambda>i r. r[i := map (next_cell (nbrs (int N)) b i) [0..<N]]) [0..<N]
               (replicate N (replicate N 0)) =
             map (\<lambda>i. map (next_cell (nbrs (int N)) b i) [0..<N]) [0..<N]"
    by (rule fold_set_all) simp
  finally show ?thesis by (simp add: life_step_def spec_life_def)
qed

lemma life_step_single_cell_raises:
  "nbrs 1 (0, 0) = Some [(- 1, 0), (- 1, 1), (0, 1)] \<and>
   life_step 1 (nbrs 1) [ [c] ] = Inl IndexError"
  by (simp add: nbrs_at life_step_def life_cell_def dict_get_def board_get_def np_index_def)

end
